theory Spec2Isabelle
  imports Main "HOL-Library.Multiset"
begin

section \<open>Data model\<close>

text \<open>
  A roster entry of \<open>BASE_DRIVERS\<close> (data.js).  The fields are the ones the engine and the
  page read: \<open>id\<close>, \<open>name\<close>, \<open>team\<close>, \<open>points\<close>, \<open>wins\<close>, \<open>podiums\<close>, \<open>isContender\<close>.
  The field \<open>id\<close> is called \<open>driver_id\<close> here, since \<open>id\<close> is the identity function of HOL.
  JavaScript numbers are modelled as \<open>int\<close>: every number the engine adds, subtracts or
  compares is an integer far inside the range where doubles are exact.
\<close>

record driver =
  driver_id :: string
  name :: string
  team :: string
  points :: int
  wins :: int
  podiums :: int
  isContender :: bool

text \<open>
  The enriched object returned by \<open>calculateDriverResult\<close>: the spread \<open>...baseDriver\<close>
  followed by the five computed fields.  \<open>finishingPos\<close> is \<open>number | null\<close>; \<open>None\<close> is
  \<open>null\<close>.
\<close>

record result = driver +
  finishingPos :: "int option"
  racePoints :: int
  finalPoints :: int
  finalWins :: int
  finalPodiums :: int

text \<open>The object \<open>{ champion, second, isTie }\<close> returned by \<open>determineChampion\<close>;
  \<open>None\<close> is \<open>undefined\<close> for \<open>champion\<close> and \<open>null\<close> for \<open>second\<close>.\<close>

record outcome =
  champion :: "result option"
  second :: "result option"
  isTie :: bool

text \<open>The object \<open>{ norrisPos, verstappenPos, piastriPos }\<close> pushed by
  \<open>findWinningScenarios\<close>.\<close>

record scenario =
  norrisPos :: int
  verstappenPos :: int
  piastriPos :: int

text \<open>One entry \<open>{ position, description }\<close> of the array returned by \<open>groupScenarios\<close>.\<close>

record scenario_group =
  position :: string
  description :: string

datatype error = TypeError

section \<open>engine.js\<close>

text \<open>Modelled from the spec: the table \<open>RACE_POINTS\<close> of data.js, which is not among
  the sources.  Section 4.1 of the specification gives it as
  \<open>{1:25, 2:18, 3:15, 4:12, 5:10, 6:8, 7:6, 8:4, 9:2, 10:1}\<close>, and the README names the
  same values (25-18-15-12-10-8-6-4-2-1).\<close>

definition RACE_POINTS :: "int \<rightharpoonup> int" where
  "RACE_POINTS = map_of
     [(1, 25), (2, 18), (3, 15), (4, 12), (5, 10), (6, 8), (7, 6), (8, 4), (9, 2), (10, 1)]"

text \<open>
  \<open>calculateDriverResult(baseDriver, finishingPos)\<close>.  The test \<open>finishingPos != null\<close>
  is the case distinction on the option; \<open>finishingPos === 1\<close> is false for \<open>null\<close>.
  The read \<open>RACE_POINTS[finishingPos]\<close> happens only under the guard \<open>1 \<le> p \<le> 10\<close>, where
  the table has every key (lemma \<open>RACE_POINTS_defined\<close>), so the branch for an absent key
  is never taken.  The parameter \<open>finishingPos\<close> is called \<open>finish\<close>, the name being
  taken by the field.
\<close>

definition calculateDriverResult :: "driver \<Rightarrow> int option \<Rightarrow> result" where
  "calculateDriverResult baseDriver finish =
     (let racePoints =
            (case finish of
               None \<Rightarrow> 0
             | Some p \<Rightarrow>
                 if p \<le> 10 \<and> p \<ge> 1
                 then (case RACE_POINTS p of Some v \<Rightarrow> v | None \<Rightarrow> 0)
                 else 0);
          finalPoints = points baseDriver + racePoints;
          finalWins = wins baseDriver + (if finish = Some 1 then 1 else 0);
          finalPodiums = podiums baseDriver +
            (case finish of None \<Rightarrow> 0 | Some p \<Rightarrow> if p \<le> 3 then 1 else 0)
      in \<lparr> driver_id = driver_id baseDriver, name = name baseDriver, team = team baseDriver,
           points = points baseDriver, wins = wins baseDriver, podiums = podiums baseDriver,
           isContender = isContender baseDriver,
           finishingPos = finish, racePoints = racePoints, finalPoints = finalPoints,
           finalWins = finalWins, finalPodiums = finalPodiums \<rparr>)"

text \<open>
  The comparator handed to \<open>sort\<close> in \<open>sortStandings\<close>.  \<open>String.prototype.localeCompare\<close>
  belongs to the host, not to the repository: it is the parameter \<open>localeCompare\<close>, and
  a theorem that needs a property of it says so.
\<close>

definition compareStandings :: "(string \<Rightarrow> string \<Rightarrow> int) \<Rightarrow> result \<Rightarrow> result \<Rightarrow> int" where
  "compareStandings localeCompare a b =
     (if finalPoints b \<noteq> finalPoints a then finalPoints b - finalPoints a
      else if finalWins b \<noteq> finalWins a then finalWins b - finalWins a
      else if finalPodiums b \<noteq> finalPodiums a then finalPodiums b - finalPodiums a
      else localeCompare (name a) (name b))"

text \<open>
  \<open>Array.prototype.sort\<close> with a comparator: a stable sort (ECMAScript 2019), here the
  stable insertion sort.  An element goes in front of the first element it does not
  compare greater than, so equal elements keep their input order.  The language fixes
  the result of \<open>sort\<close> only for a comparator that is a consistent ordering of the
  elements; the statements about sorted output below are about such comparators.
\<close>

fun array_insert :: "('a \<Rightarrow> 'a \<Rightarrow> int) \<Rightarrow> 'a \<Rightarrow> 'a list \<Rightarrow> 'a list" where
  "array_insert cmp x [] = [x]"
| "array_insert cmp x (y # ys) =
     (if cmp x y \<le> 0 then x # y # ys else y # array_insert cmp x ys)"

fun array_sort :: "('a \<Rightarrow> 'a \<Rightarrow> int) \<Rightarrow> 'a list \<Rightarrow> 'a list" where
  "array_sort cmp [] = []"
| "array_sort cmp (x # xs) = array_insert cmp x (array_sort cmp xs)"

definition sortStandings :: "(string \<Rightarrow> string \<Rightarrow> int) \<Rightarrow> result list \<Rightarrow> result list" where
  "sortStandings localeCompare results = array_sort (compareStandings localeCompare) results"

text \<open>
  \<open>determineChampion(sortedResults)\<close>.  \<open>sortedResults[0]\<close> and \<open>sortedResults[1]\<close> are
  \<open>undefined\<close> past the end of the array; \<open>!second\<close> holds exactly then, an object being
  truthy.
\<close>

fun determineChampion :: "result list \<Rightarrow> outcome" where
  "determineChampion [] = \<lparr> champion = None, second = None, isTie = False \<rparr>"
| "determineChampion [c] = \<lparr> champion = Some c, second = None, isTie = False \<rparr>"
| "determineChampion (c # s # rest) =
     \<lparr> champion = Some c, second = Some s,
       isTie = (finalPoints c = finalPoints s \<and> finalWins c = finalWins s
                \<and> finalPodiums c = finalPodiums s) \<rparr>"

section \<open>scenarios.js: the sweep\<close>

text \<open>
  The roster \<open>BASE_DRIVERS\<close> is defined in data.js, which is not among the sources: it is
  a parameter.  \<open>contenders\<close> is the module constant
  \<open>BASE_DRIVERS.filter((d) => d.isContender)\<close>.
\<close>

definition contenders :: "driver list \<Rightarrow> driver list" where
  "contenders BASE_DRIVERS = filter isContender BASE_DRIVERS"

definition MAX_POS :: int where
  "MAX_POS = 11"

text \<open>The argument \<open>pos > 10 ? null : pos\<close> of the three calls.\<close>

definition finishOf :: "int \<Rightarrow> int option" where
  "finishOf pos = (if pos > 10 then None else Some pos)"

text \<open>
  The body of the innermost loop up to the test of the \<open>if\<close>: the three results, the mini
  standings, the classification, and \<open>champion.id === targetWinnerId && !isTie\<close>.
  The standings have three entries, so \<open>champion\<close> is never \<open>undefined\<close>
  (lemma \<open>classify_champion\<close>).
\<close>

definition classify ::
  "(string \<Rightarrow> string \<Rightarrow> int) \<Rightarrow> driver \<Rightarrow> driver \<Rightarrow> driver \<Rightarrow> int \<Rightarrow> int \<Rightarrow> int \<Rightarrow> outcome" where
  "classify localeCompare norris verstappen piastri posN posV posP =
     (let resN = calculateDriverResult norris (finishOf posN);
          resV = calculateDriverResult verstappen (finishOf posV);
          resP = calculateDriverResult piastri (finishOf posP);
          miniStandings = sortStandings localeCompare [resN, resV, resP]
      in determineChampion miniStandings)"

definition targetWon :: "outcome \<Rightarrow> string \<Rightarrow> bool" where
  "targetWon oc targetWinnerId =
     (case champion oc of
        None \<Rightarrow> False
      | Some c \<Rightarrow> driver_id c = targetWinnerId \<and> \<not> isTie oc)"

text \<open>
  The three nested \<open>for\<close> loops, innermost first.  Each loop runs its counter over
  \<open>1..MAX_POS\<close> and threads the array \<open>winningScenarios\<close>; \<open>continue\<close> hands the array on
  unchanged, \<open>push\<close> appends.  In \<open>loopP\<close> the first two branches are the two
  \<open>continue\<close> statements inside \<open>if (posP <= 10)\<close>.
\<close>

definition loopP ::
  "(string \<Rightarrow> string \<Rightarrow> int) \<Rightarrow> driver \<Rightarrow> driver \<Rightarrow> driver \<Rightarrow> string \<Rightarrow> int \<Rightarrow> int
     \<Rightarrow> scenario list \<Rightarrow> scenario list" where
  "loopP localeCompare norris verstappen piastri targetWinnerId posN posV winningScenarios =
     foldl (\<lambda>acc posP.
        if posP \<le> 10 \<and> posN \<le> 10 \<and> posN = posP then acc
        else if posP \<le> 10 \<and> posV \<le> 10 \<and> posV = posP then acc
        else if targetWon (classify localeCompare norris verstappen piastri posN posV posP)
                  targetWinnerId
        then acc @ [\<lparr> norrisPos = posN, verstappenPos = posV, piastriPos = posP \<rparr>]
        else acc)
      winningScenarios [1..MAX_POS]"

definition loopV ::
  "(string \<Rightarrow> string \<Rightarrow> int) \<Rightarrow> driver \<Rightarrow> driver \<Rightarrow> driver \<Rightarrow> string \<Rightarrow> int
     \<Rightarrow> scenario list \<Rightarrow> scenario list" where
  "loopV localeCompare norris verstappen piastri targetWinnerId posN winningScenarios =
     foldl (\<lambda>acc posV.
        if posN \<le> 10 \<and> posV \<le> 10 \<and> posN = posV then acc
        else loopP localeCompare norris verstappen piastri targetWinnerId posN posV acc)
      winningScenarios [1..MAX_POS]"

definition loopN ::
  "(string \<Rightarrow> string \<Rightarrow> int) \<Rightarrow> driver \<Rightarrow> driver \<Rightarrow> driver \<Rightarrow> string \<Rightarrow> scenario list" where
  "loopN localeCompare norris verstappen piastri targetWinnerId =
     foldl (\<lambda>acc posN. loopV localeCompare norris verstappen piastri targetWinnerId posN acc)
      [] [1..MAX_POS]"

text \<open>
  \<open>findWinningScenarios(targetWinnerId)\<close>.  The module destructures
  \<open>[norris, verstappen, piastri] = contenders\<close>; with fewer than three contenders one of
  them is \<open>undefined\<close> and the first scored combination (1, 2, 3) throws a \<open>TypeError\<close> at
  \<open>baseDriver.points\<close>.
\<close>

definition findWinningScenarios ::
  "(string \<Rightarrow> string \<Rightarrow> int) \<Rightarrow> driver list \<Rightarrow> string \<Rightarrow> error + scenario list" where
  "findWinningScenarios localeCompare BASE_DRIVERS targetWinnerId =
     (case contenders BASE_DRIVERS of
        norris # verstappen # piastri # _ \<Rightarrow>
          Inr (loopN localeCompare norris verstappen piastri targetWinnerId)
      | _ \<Rightarrow> Inl TypeError)"

section \<open>scenarios.js: grouping and summarising\<close>

text \<open>
  The property read \<open>sc[id + "Pos"]\<close>: a scenario has the three keys \<open>norrisPos\<close>,
  \<open>verstappenPos\<close> and \<open>piastriPos\<close>, and any other key reads \<open>undefined\<close> (\<open>None\<close>).
\<close>

definition posOf :: "scenario \<Rightarrow> string \<Rightarrow> int option" where
  "posOf sc ident =
     (if ident @ ''Pos'' = ''norrisPos'' then Some (norrisPos sc)
      else if ident @ ''Pos'' = ''verstappenPos'' then Some (verstappenPos sc)
      else if ident @ ''Pos'' = ''piastriPos'' then Some (piastriPos sc)
      else None)"

text \<open>
  Number to string, as string concatenation does it: the decimal digits, with a minus
  sign below zero.  (Only integers are modelled; the exponent form of JavaScript starts
  at \<open>10^21\<close>.)
\<close>

definition digitChar :: "nat \<Rightarrow> char" where
  "digitChar d = char_of (48 + d)"

fun natToString :: "nat \<Rightarrow> string" where
  "natToString n =
     (if n < 10 then [digitChar n] else natToString (n div 10) @ [digitChar (n mod 10)])"

definition numberToString :: "int \<Rightarrow> string" where
  "numberToString i = (if i < 0 then ''-'' @ natToString (nat (- i)) else natToString (nat i))"

text \<open>
  The keys of the object \<open>byTargetPos\<close> are the strings of the values \<open>targetPos\<close>:
  the decimal string of a number, or \<open>"undefined"\<close>.  A key is kept here as the value
  it is the string of (\<open>None\<close> for \<open>"undefined"\<close>); \<open>keyToString\<close> gives the string and
  \<open>keyToNumber\<close> the number that \<open>a - b\<close> and \<open>pos > 10\<close> coerce it to, \<open>None\<close> being \<open>NaN\<close>.
\<close>

type_synonym key = "int option"

definition keyToString :: "key \<Rightarrow> string" where
  "keyToString k = (case k of None \<Rightarrow> ''undefined'' | Some n \<Rightarrow> numberToString n)"

definition keyToNumber :: "key \<Rightarrow> int option" where
  "keyToNumber k = k"

text \<open>
  The body of the first \<open>forEach\<close> of \<open>groupScenarios\<close>: create the bucket if the key is
  new, then push.  The object is an association list in the order in which the keys
  were created.
\<close>

fun bucketPush :: "(key \<times> scenario list) list \<Rightarrow> key \<Rightarrow> scenario \<Rightarrow> (key \<times> scenario list) list" where
  "bucketPush [] k sc = [(k, [sc])]"
| "bucketPush ((k', b) # rest) k sc =
     (if k' = k then (k', b @ [sc]) # rest else (k', b) # bucketPush rest k sc)"

definition bucketize :: "string \<Rightarrow> scenario list \<Rightarrow> (key \<times> scenario list) list" where
  "bucketize targetId scenarios =
     foldl (\<lambda>byTargetPos sc. bucketPush byTargetPos (posOf sc targetId) sc) [] scenarios"

text \<open>
  \<open>Object.keys\<close>: the keys that are array indices (integers from 0 to \<open>2^32 - 2\<close>) in
  ascending order, then the other keys in the order of their creation.
\<close>

definition isArrayIndex :: "key \<Rightarrow> bool" where
  "isArrayIndex k = (case k of None \<Rightarrow> False | Some n \<Rightarrow> 0 \<le> n \<and> n < 4294967295)"

definition indexCompare :: "key \<Rightarrow> key \<Rightarrow> int" where
  "indexCompare a b = (case (a, b) of (Some x, Some y) \<Rightarrow> x - y | _ \<Rightarrow> 0)"

definition objectKeys :: "(key \<times> 'v) list \<Rightarrow> key list" where
  "objectKeys obj =
     array_sort indexCompare (filter isArrayIndex (map fst obj))
     @ filter (\<lambda>k. \<not> isArrayIndex k) (map fst obj)"

text \<open>
  The comparator \<open>(a, b) => a - b\<close> on keys.  With a key \<open>"undefined"\<close> the difference
  is \<open>NaN\<close>, which \<open>sort\<close> takes as \<open>+0\<close>.
\<close>

definition keyCompare :: "key \<Rightarrow> key \<Rightarrow> int" where
  "keyCompare a b =
     (case (keyToNumber a, keyToNumber b) of (Some x, Some y) \<Rightarrow> x - y | _ \<Rightarrow> 0)"

text \<open>\<open>pos > 10 ? "No Points" : "P" + pos\<close>; the comparison with \<open>NaN\<close> is false.\<close>

definition displayPos :: "key \<Rightarrow> string" where
  "displayPos pos =
     (if (case keyToNumber pos of None \<Rightarrow> False | Some n \<Rightarrow> n > 10) then ''No Points''
      else ''P'' @ keyToString pos)"

definition otherIds :: "string \<Rightarrow> string list" where
  "otherIds targetId = filter (\<lambda>ident. ident \<noteq> targetId) [''norris'', ''verstappen'', ''piastri'']"

text \<open>\<open>toUpperCase\<close> on one character, for the letters \<open>a\<close> to \<open>z\<close> that the three ids
  start with; \<open>capitalize\<close> is \<open>id.charAt(0).toUpperCase() + id.slice(1)\<close>.\<close>

definition toUpperCase :: "char \<Rightarrow> char" where
  "toUpperCase c =
     (if 97 \<le> (of_char c :: nat) \<and> (of_char c :: nat) \<le> 122
      then char_of ((of_char c :: nat) - 32) else c)"

definition capitalize :: "string \<Rightarrow> string" where
  "capitalize ident = (case ident of [] \<Rightarrow> [] | c # cs \<Rightarrow> toUpperCase c # cs)"

fun join :: "string \<Rightarrow> string list \<Rightarrow> string" where
  "join sep [] = []"
| "join sep [x] = x"
| "join sep (x # y # ys) = x @ sep @ join sep (y # ys)"

text \<open>
  \<open>summarizeConstraints(scenarios, otherIds)\<close>.  \<open>minPos\<close> is an object keyed by id,
  every id starting at 99; the two nested \<open>forEach\<close> lower an entry whenever a scenario
  has a smaller position; a comparison with \<open>undefined\<close> is false.  The parameter
  \<open>otherIds\<close> is called \<open>ids\<close>, the name being taken by the function above.
\<close>

definition initMinPos :: "string list \<Rightarrow> (string \<rightharpoonup> int)" where
  "initMinPos ids = foldl (\<lambda>minPos ident. minPos(ident \<mapsto> 99)) Map.empty ids"

definition lowerMinPos :: "scenario \<Rightarrow> (string \<rightharpoonup> int) \<Rightarrow> string \<Rightarrow> (string \<rightharpoonup> int)" where
  "lowerMinPos sc minPos ident =
     (case (posOf sc ident, minPos ident) of
        (Some p, Some m) \<Rightarrow> if p < m then minPos(ident \<mapsto> p) else minPos
      | _ \<Rightarrow> minPos)"

definition scanMinPos :: "scenario list \<Rightarrow> string list \<Rightarrow> (string \<rightharpoonup> int)" where
  "scanMinPos scenarios ids =
     foldl (\<lambda>minPos sc. foldl (lowerMinPos sc) minPos ids) (initMinPos ids) scenarios"

definition constraintText :: "string \<Rightarrow> key \<Rightarrow> string" where
  "constraintText ident mp = capitalize ident @ '' finishes '' @ displayPos mp @ '' or lower''"

definition summarizeConstraints :: "scenario list \<Rightarrow> string list \<Rightarrow> string" where
  "summarizeConstraints scenarios ids =
     (let minPos = scanMinPos scenarios ids;
          parts = map (\<lambda>ident. constraintText ident (minPos ident)) ids
      in join '' AND <br>'' parts)"

text \<open>
  \<open>groupScenarios(targetId, scenarios)\<close>.  Every key of \<open>positions\<close> is a key of the
  object, so the read \<open>byTargetPos[pos]\<close> finds its bucket.
\<close>

definition groupScenarios :: "string \<Rightarrow> scenario list \<Rightarrow> scenario_group list" where
  "groupScenarios targetId scenarios =
     (let byTargetPos = bucketize targetId scenarios;
          positions = array_sort keyCompare (objectKeys byTargetPos)
      in map (\<lambda>pos.
            let scenariosForPos = (case map_of byTargetPos pos of Some b \<Rightarrow> b | None \<Rightarrow> []);
                summary = summarizeConstraints scenariosForPos (otherIds targetId)
            in \<lparr> position = displayPos pos, description = summary \<rparr>)
          positions)"

declare natToString.simps [simp del]

section \<open>Notions used in the statements\<close>

text \<open>
  The table of section 4.1 of the specification as a function of the position, for the
  statement about \<open>RACE_POINTS\<close>.
\<close>

definition tablePoints :: "int \<Rightarrow> int" where
  "tablePoints p =
     (if p = 1 then 25 else if p = 2 then 18 else if p = 3 then 15 else if p = 4 then 12
      else if p = 5 then 10 else if p = 6 then 8 else if p = 7 then 6 else if p = 8 then 4
      else if p = 9 then 2 else if p = 10 then 1 else 0)"

text \<open>
  The order of the standings.  \<open>ranksBefore\<close> is the comparator answering "a before b";
  \<open>aheadOnTotals\<close> and \<open>tiedOnTotals\<close> say in the specification's words how two results
  compare on final points, then final wins, then final podiums.
\<close>

definition ranksBefore :: "(string \<Rightarrow> string \<Rightarrow> int) \<Rightarrow> result \<Rightarrow> result \<Rightarrow> bool" where
  "ranksBefore lc a b = (compareStandings lc a b < 0)"

definition tiedOnTotals :: "result \<Rightarrow> result \<Rightarrow> bool" where
  "tiedOnTotals a b =
     (finalPoints a = finalPoints b \<and> finalWins a = finalWins b \<and> finalPodiums a = finalPodiums b)"

definition aheadOnTotals :: "result \<Rightarrow> result \<Rightarrow> bool" where
  "aheadOnTotals a b =
     (finalPoints a > finalPoints b
      \<or> (finalPoints a = finalPoints b
          \<and> (finalWins a > finalWins b
              \<or> (finalWins a = finalWins b \<and> finalPodiums a > finalPodiums b))))"

text \<open>
  \<open>ranksNotAfter\<close> is the comparator answering "a not after b", and
  \<open>notBehindOnTotals\<close> says that the second result is not ahead of the first on the
  totals.  \<open>namesToldApart\<close> says of a list of results that the names are distinct and
  that the name comparison is not zero on two distinct names of the list.
\<close>

definition ranksNotAfter :: "(string \<Rightarrow> string \<Rightarrow> int) \<Rightarrow> result \<Rightarrow> result \<Rightarrow> bool" where
  "ranksNotAfter lc a b = (compareStandings lc a b \<le> 0)"

definition notBehindOnTotals :: "result \<Rightarrow> result \<Rightarrow> bool" where
  "notBehindOnTotals a b = (\<not> aheadOnTotals b a)"

definition namesToldApart :: "(string \<Rightarrow> string \<Rightarrow> int) \<Rightarrow> result list \<Rightarrow> bool" where
  "namesToldApart lc xs \<longleftrightarrow>
     distinct (map name xs)
     \<and> (\<forall>a\<in>set xs. \<forall>b\<in>set xs. name a \<noteq> name b \<longrightarrow> lc (name a) (name b) \<noteq> 0)"

text \<open>
  What the language standard requires of the host's \<open>localeCompare\<close>, seen as a function
  of two strings: a consistent comparator that orders all strings totally.  Its sign
  flips when the arguments are swapped, and "not after" is transitive.  It may be zero
  on two different strings: the standard has it return 0 on canonically equivalent
  ones.
\<close>

definition nameOrdering :: "(string \<Rightarrow> string \<Rightarrow> int) \<Rightarrow> bool" where
  "nameOrdering lc \<longleftrightarrow>
     (\<forall>x y. (lc x y < 0) = (0 < lc y x))
     \<and> (\<forall>x y z. lc x y \<le> 0 \<longrightarrow> lc y z \<le> 0 \<longrightarrow> lc x z \<le> 0)"

text \<open>
  The sweep as a list comprehension: \<open>cellP\<close> is one pass of the innermost loop body,
  \<open>rowV\<close> one pass of the middle one; \<open>collides\<close> is the collision test on two positions.
\<close>

definition cellP ::
  "(string \<Rightarrow> string \<Rightarrow> int) \<Rightarrow> driver \<Rightarrow> driver \<Rightarrow> driver \<Rightarrow> string \<Rightarrow> int \<Rightarrow> int \<Rightarrow> int
     \<Rightarrow> scenario list" where
  "cellP lc n v p t posN posV posP =
     (if posP \<le> 10 \<and> posN \<le> 10 \<and> posN = posP then []
      else if posP \<le> 10 \<and> posV \<le> 10 \<and> posV = posP then []
      else if targetWon (classify lc n v p posN posV posP) t
      then [\<lparr> norrisPos = posN, verstappenPos = posV, piastriPos = posP \<rparr>]
      else [])"

definition rowV ::
  "(string \<Rightarrow> string \<Rightarrow> int) \<Rightarrow> driver \<Rightarrow> driver \<Rightarrow> driver \<Rightarrow> string \<Rightarrow> int \<Rightarrow> int
     \<Rightarrow> scenario list" where
  "rowV lc n v p t posN posV =
     (if posN \<le> 10 \<and> posV \<le> 10 \<and> posN = posV then []
      else concat (map (cellP lc n v p t posN posV) [1..MAX_POS]))"

definition collides :: "int \<Rightarrow> int \<Rightarrow> bool" where
  "collides a b = (a \<le> 10 \<and> b \<le> 10 \<and> a = b)"

text \<open>
  Orders on scenarios.  \<open>sweepBefore\<close> compares the positions in the order of the loops:
  Norris, Verstappen, Piastri.  \<open>targetFirstBefore\<close> compares the target's position
  first and then the other two contenders' positions, in the order of the list
  \<open>["norris", "verstappen", "piastri"]\<close>.
\<close>

definition rivalPos :: "string \<Rightarrow> scenario \<Rightarrow> int" where
  "rivalPos ident sc =
     (if ident = ''norris'' then norrisPos sc
      else if ident = ''verstappen'' then verstappenPos sc
      else piastriPos sc)"

definition trackedIds :: "string list" where
  "trackedIds = [''norris'', ''verstappen'', ''piastri'']"

fun lexLess :: "int list \<Rightarrow> int list \<Rightarrow> bool" where
  "lexLess (x # xs) (y # ys) = (x < y \<or> (x = y \<and> lexLess xs ys))"
| "lexLess _ _ = False"

definition sweepBefore :: "scenario \<Rightarrow> scenario \<Rightarrow> bool" where
  "sweepBefore a b =
     lexLess [norrisPos a, verstappenPos a, piastriPos a]
             [norrisPos b, verstappenPos b, piastriPos b]"

definition targetFirstBefore :: "string \<Rightarrow> scenario \<Rightarrow> scenario \<Rightarrow> bool" where
  "targetFirstBefore targetId a b =
     lexLess (map (\<lambda>ident. rivalPos ident a) (targetId # otherIds targetId))
             (map (\<lambda>ident. rivalPos ident b) (targetId # otherIds targetId))"

definition targetFirstOrdered :: "string \<Rightarrow> scenario list \<Rightarrow> bool" where
  "targetFirstOrdered targetId scs = sorted_wrt (targetFirstBefore targetId) scs"

text \<open>
  Grouping in the specification's words: \<open>bucketsOf\<close> is \<open>bucketize\<close> for any key
  function, \<open>lowerTo\<close> one step of the running minimum, \<open>positionLabel\<close> the label of
  a position, and \<open>rivalConstraint\<close> the sentence for one rival, built from the smallest
  position the rival has in the bucket.
\<close>

definition bucketsOf :: "(scenario \<Rightarrow> key) \<Rightarrow> scenario list \<Rightarrow> (key \<times> scenario list) list" where
  "bucketsOf f scs = foldl (\<lambda>obj sc. bucketPush obj (f sc) sc) [] scs"

definition lowerTo :: "int \<Rightarrow> int option \<Rightarrow> int" where
  "lowerTo m p = (case p of None \<Rightarrow> m | Some q \<Rightarrow> if q < m then q else m)"

definition positionLabel :: "int \<Rightarrow> string" where
  "positionLabel n = (if n > 10 then ''No Points'' else ''P'' @ numberToString n)"

definition rivalConstraint :: "string \<Rightarrow> scenario list \<Rightarrow> string" where
  "rivalConstraint rival bucket =
     capitalize rival @ '' finishes '' @ positionLabel (Min (rivalPos rival ` set bucket))
       @ '' or lower''"

section \<open>Sample data\<close>

text \<open>
  A comparison of names by character code, and a roster with three contenders and one
  other driver, for the concrete instances below.
\<close>

fun ordinalCompare :: "string \<Rightarrow> string \<Rightarrow> int" where
  "ordinalCompare [] [] = 0"
| "ordinalCompare [] (y # ys) = -1"
| "ordinalCompare (x # xs) [] = 1"
| "ordinalCompare (x # xs) (y # ys) =
     (if (of_char x :: nat) < of_char y then -1
      else if (of_char y :: nat) < of_char x then 1
      else ordinalCompare xs ys)"

definition norrisEntry :: driver where
  "norrisEntry = \<lparr> driver_id = ''norris'', name = ''Lando Norris'', team = ''McLaren'',
         points = 408, wins = 7, podiums = 17, isContender = True \<rparr>"
definition verstappenEntry :: driver where
  "verstappenEntry = \<lparr> driver_id = ''verstappen'', name = ''Max Verstappen'', team = ''Red Bull'',
         points = 396, wins = 7, podiums = 17, isContender = True \<rparr>"
definition piastriEntry :: driver where
  "piastriEntry = \<lparr> driver_id = ''piastri'', name = ''Oscar Piastri'', team = ''McLaren'',
         points = 392, wins = 7, podiums = 15, isContender = True \<rparr>"
definition russellEntry :: driver where
  "russellEntry = \<lparr> driver_id = ''russell'', name = ''George Russell'', team = ''Mercedes'',
         points = 309, wins = 2, podiums = 9, isContender = False \<rparr>"

definition demoRoster :: "driver list" where
  "demoRoster = [norrisEntry, verstappenEntry, russellEntry, piastriEntry]"

definition exampleResults :: "result list" where
  "exampleResults =
     [calculateDriverResult piastriEntry (Some 5),
      calculateDriverResult verstappenEntry (Some 4),
      calculateDriverResult norrisEntry None]"

definition exampleBucket :: "scenario list" where
  "exampleBucket =
     [\<lparr> norrisPos = 1, verstappenPos = 4, piastriPos = 5 \<rparr>,
      \<lparr> norrisPos = 1, verstappenPos = 5, piastriPos = 5 \<rparr>,
      \<lparr> norrisPos = 1, verstappenPos = 4, piastriPos = 6 \<rparr>]"

definition exampleScenarios :: "scenario list" where
  "exampleScenarios =
     [\<lparr> norrisPos = 11, verstappenPos = 3, piastriPos = 4 \<rparr>,
      \<lparr> norrisPos = 2, verstappenPos = 5, piastriPos = 11 \<rparr>,
      \<lparr> norrisPos = 10, verstappenPos = 11, piastriPos = 11 \<rparr>,
      \<lparr> norrisPos = 2, verstappenPos = 6, piastriPos = 7 \<rparr>]"

text \<open>
  A name comparison with the host's treatment of canonically equivalent strings, for
  one equivalence: the letter \<open>e\<close> followed by the combining acute accent U+0301 (bytes
  \<open>CC 81\<close> in UTF-8, the encoding in which the names are held here) is the same as the
  single letter U+00E9 (bytes \<open>C3 A9\<close>).  \<open>composeAccent\<close> rewrites the first form into
  the second and \<open>canonicalCompare\<close> compares the rewritten names by character code.
  The two names below are the two spellings of the same name, and the two roster
  entries carry them with equal totals.
\<close>

fun composeAccent :: "string \<Rightarrow> string" where
  "composeAccent (a # b # c # rest) =
     (if a = CHR ''e'' \<and> b = CHR 0xCC \<and> c = CHR 0x81
      then CHR 0xC3 # CHR 0xA9 # composeAccent rest
      else a # composeAccent (b # c # rest))"
| "composeAccent xs = xs"

definition canonicalCompare :: "string \<Rightarrow> string \<Rightarrow> int" where
  "canonicalCompare x y = ordinalCompare (composeAccent x) (composeAccent y)"

definition composedName :: string where
  "composedName = ''Jos'' @ [CHR 0xC3, CHR 0xA9]"

definition decomposedName :: string where
  "decomposedName = ''Jose'' @ [CHR 0xCC, CHR 0x81]"

definition composedEntry :: driver where
  "composedEntry = \<lparr> driver_id = ''jose1'', name = composedName,
         team = ''Team A'', points = 100, wins = 1, podiums = 3, isContender = False \<rparr>"

definition decomposedEntry :: driver where
  "decomposedEntry = \<lparr> driver_id = ''jose2'', name = decomposedName,
         team = ''Team B'', points = 100, wins = 1, podiums = 3, isContender = False \<rparr>"

definition accentResults :: "result list" where
  "accentResults =
     [calculateDriverResult composedEntry None, calculateDriverResult decomposedEntry None]"

lemmas entry_defs = norrisEntry_def verstappenEntry_def piastriEntry_def russellEntry_def

lemmas classify_eval = classify_def calculateDriverResult_def finishOf_def RACE_POINTS_def
  sortStandings_def compareStandings_def targetWon_def Let_def entry_defs

section \<open>The result calculator\<close>

lemma RACE_POINTS_defined: "1 \<le> p \<Longrightarrow> p \<le> 10 \<Longrightarrow> RACE_POINTS p \<noteq> None"
proof -
  assume "1 \<le> p" "p \<le> 10"
  then have "p = 1 \<or> p = 2 \<or> p = 3 \<or> p = 4 \<or> p = 5 \<or> p = 6 \<or> p = 7 \<or> p = 8 \<or> p = 9 \<or> p = 10"
    by arith
  then show ?thesis by (auto simp: RACE_POINTS_def)
qed

lemma race_points_table:
  "(case RACE_POINTS p of Some v \<Rightarrow> v | None \<Rightarrow> 0) = tablePoints p"
  by (simp add: RACE_POINTS_def tablePoints_def)

section \<open>Sorting with a comparator\<close>

lemma mset_array_insert: "mset (array_insert cmp x ys) = add_mset x (mset ys)"
  by (induction ys) simp_all

lemma mset_array_sort: "mset (array_sort cmp xs) = mset xs"
proof (induction xs)
  case Nil
  show ?case by simp
next
  case (Cons x xs)
  then show ?case by (simp only: array_sort.simps mset_array_insert mset.simps)
qed

lemma set_array_insert: "set (array_insert cmp x ys) = insert x (set ys)"
  by (induction ys) auto

lemma set_array_sort: "set (array_sort cmp xs) = set xs"
  by (induction xs) (simp_all add: set_array_insert)

lemma length_array_insert: "length (array_insert cmp x ys) = Suc (length ys)"
  by (induction ys) simp_all

lemma length_array_sort: "length (array_sort cmp xs) = length xs"
  by (induction xs) (simp_all add: length_array_insert)

lemma distinct_array_insert:
  "distinct (array_insert cmp x ys) \<longleftrightarrow> x \<notin> set ys \<and> distinct ys"
  by (induction ys) (auto simp: set_array_insert)

lemma distinct_array_sort: "distinct (array_sort cmp xs) \<longleftrightarrow> distinct xs"
  by (induction xs) (auto simp: distinct_array_insert set_array_sort)

lemma sorted_array_insert:
  assumes tot: "\<And>y. y \<in> set ys \<Longrightarrow> 0 < cmp x y \<Longrightarrow> cmp y x < 0"
      and str: "\<And>y. y \<in> set ys \<Longrightarrow> cmp x y \<le> 0 \<Longrightarrow> cmp x y < 0"
      and trans: "\<And>y z. y \<in> set ys \<Longrightarrow> z \<in> set ys \<Longrightarrow> cmp x y < 0 \<Longrightarrow> cmp y z < 0 \<Longrightarrow> cmp x z < 0"
      and srt: "sorted_wrt (\<lambda>a b. cmp a b < 0) ys"
  shows "sorted_wrt (\<lambda>a b. cmp a b < 0) (array_insert cmp x ys)"
  using assms
proof (induction ys)
  case Nil
  then show ?case by simp
next
  case (Cons y ys)
  show ?case
  proof (cases "cmp x y \<le> 0")
    case True
    then have xy: "cmp x y < 0" using Cons.prems(2) by simp
    have "\<forall>z\<in>set ys. cmp x z < 0"
      using Cons.prems(3)[of y] Cons.prems(4) xy by auto
    then show ?thesis using True xy Cons.prems(4) by simp
  next
    case False
    then have yx: "cmp y x < 0" using Cons.prems(1) by simp
    have "sorted_wrt (\<lambda>a b. cmp a b < 0) (array_insert cmp x ys)"
      using Cons.prems by (intro Cons.IH) auto
    then show ?thesis using False yx Cons.prems(4) by (auto simp: set_array_insert)
  qed
qed

lemma sorted_array_insert_rel:
  assumes le: "\<And>y. y \<in> set ys \<Longrightarrow> cmp x y \<le> 0 \<Longrightarrow> Q x y"
      and gt: "\<And>y. y \<in> set ys \<Longrightarrow> 0 < cmp x y \<Longrightarrow> Q y x"
      and trans: "\<And>y z. y \<in> set ys \<Longrightarrow> z \<in> set ys \<Longrightarrow> Q x y \<Longrightarrow> Q y z \<Longrightarrow> Q x z"
      and srt: "sorted_wrt Q ys"
  shows "sorted_wrt Q (array_insert cmp x ys)"
  using assms
proof (induction ys)
  case Nil
  then show ?case by simp
next
  case (Cons y ys)
  show ?case
  proof (cases "cmp x y \<le> 0")
    case True
    have xy: "Q x y" by (rule Cons.prems(1)) (simp_all add: True)
    have "Q x z" if z: "z \<in> set ys" for z
    proof (rule Cons.prems(3)[of y z])
      show "y \<in> set (y # ys)" by simp
      show "z \<in> set (y # ys)" using z by simp
      show "Q x y" by (rule xy)
      show "Q y z" using Cons.prems(4) z by simp
    qed
    then show ?thesis using True xy Cons.prems(4) by simp
  next
    case False
    have yx: "Q y x" by (rule Cons.prems(2)) (use False in simp_all)
    have "sorted_wrt Q (array_insert cmp x ys)"
    proof (rule Cons.IH)
      show "\<And>z. z \<in> set ys \<Longrightarrow> cmp x z \<le> 0 \<Longrightarrow> Q x z"
        by (rule Cons.prems(1)) simp_all
      show "\<And>z. z \<in> set ys \<Longrightarrow> 0 < cmp x z \<Longrightarrow> Q z x"
        by (rule Cons.prems(2)) simp_all
      show "\<And>u z. u \<in> set ys \<Longrightarrow> z \<in> set ys \<Longrightarrow> Q x u \<Longrightarrow> Q u z \<Longrightarrow> Q x z"
        by (rule Cons.prems(3)) simp_all
      show "sorted_wrt Q ys" using Cons.prems(4) by simp
    qed
    then show ?thesis using False yx Cons.prems(4) by (auto simp: set_array_insert)
  qed
qed

lemma sorted_wrt_unique:
  assumes "sorted_wrt R xs" and "sorted_wrt R ys" and "mset xs = mset ys"
      and asym: "\<And>a b. a \<in> set xs \<Longrightarrow> b \<in> set xs \<Longrightarrow> R a b \<Longrightarrow> \<not> R b a"
  shows "xs = ys"
  using assms
proof (induction xs arbitrary: ys)
  case Nil
  then show ?case by simp
next
  case (Cons x xs)
  have "size (mset ys) = size (mset (x # xs))"
    using Cons.prems(3) by (simp only:)
  then have "length ys = Suc (length xs)" by simp
  then obtain y ys' where ys: "ys = y # ys'"
    by (auto simp: length_Suc_conv)
  have "set_mset (mset (x # xs)) = set_mset (mset (y # ys'))"
    using Cons.prems(3) ys by simp
  then have sets: "set (x # xs) = set (y # ys')"
    by (simp only: set_mset_mset)
  have "x = y"
  proof (rule ccontr)
    assume ne: "x \<noteq> y"
    then have "x \<in> set ys'" and "y \<in> set xs" using sets by auto
    then have "R y x" and "R x y" using Cons.prems(1,2) ys by auto
    moreover have "y \<in> set (x # xs)" using sets by simp
    ultimately show False using Cons.prems(4)[of x y] by auto
  qed
  moreover have "xs = ys'"
  proof (rule Cons.IH)
    show "sorted_wrt R xs" using Cons.prems(1) by simp
    show "sorted_wrt R ys'" using Cons.prems(2) ys by simp
    show "mset xs = mset ys'" using Cons.prems(3) ys \<open>x = y\<close> by simp
    show "\<And>a b. a \<in> set xs \<Longrightarrow> b \<in> set xs \<Longrightarrow> R a b \<Longrightarrow> \<not> R b a"
      using Cons.prems(4) by auto
  qed
  ultimately show ?case using ys by simp
qed

lemma sorted_wrt_position:
  assumes "sorted_wrt R xs" and "a \<in> set xs" and "b \<in> set xs" and "R a b" and "\<not> R b a"
      and "\<not> R a a"
  shows "\<exists>i j. i < j \<and> j < length xs \<and> xs ! i = a \<and> xs ! j = b"
proof -
  obtain i where i: "i < length xs" "xs ! i = a" using assms(2) by (auto simp: in_set_conv_nth)
  obtain j where j: "j < length xs" "xs ! j = b" using assms(3) by (auto simp: in_set_conv_nth)
  have "i \<noteq> j" using i j assms(4,6) by auto
  moreover have "\<not> j < i"
    using sorted_wrt_nth_less[OF assms(1), of j i] i j assms(5) by auto
  ultimately have "i < j" by simp
  then show ?thesis using i j by blast
qed

lemma sorted_wrt_both:
  assumes "sorted_wrt R xs" and "sorted_wrt Q xs" and "a \<in> set xs" and "b \<in> set xs"
      and "R a b" and "\<not> R b a" and "\<not> R a a"
  shows "Q a b"
proof -
  obtain i j where "i < j" "j < length xs" "xs ! i = a" "xs ! j = b"
    using sorted_wrt_position[OF assms(1,3,4,5,6,7)] by blast
  then show ?thesis using sorted_wrt_nth_less[OF assms(2), of i j] by simp
qed

section \<open>The standings order\<close>

lemma compare_neg_iff:
  "compareStandings lc a b < 0 \<longleftrightarrow>
     aheadOnTotals a b \<or> (tiedOnTotals a b \<and> lc (name a) (name b) < 0)"
  by (auto simp: compareStandings_def aheadOnTotals_def tiedOnTotals_def)

lemma compare_pos_iff:
  "0 < compareStandings lc a b \<longleftrightarrow>
     aheadOnTotals b a \<or> (tiedOnTotals a b \<and> 0 < lc (name a) (name b))"
  by (auto simp: compareStandings_def aheadOnTotals_def tiedOnTotals_def)

lemma compare_zero_iff:
  "compareStandings lc a b = 0 \<longleftrightarrow> tiedOnTotals a b \<and> lc (name a) (name b) = 0"
  by (auto simp: compareStandings_def tiedOnTotals_def)

lemma totals_trichotomy:
  "(aheadOnTotals a b \<or> aheadOnTotals b a \<or> tiedOnTotals a b)
   \<and> \<not> (aheadOnTotals a b \<and> aheadOnTotals b a)
   \<and> \<not> (aheadOnTotals a b \<and> tiedOnTotals a b)
   \<and> \<not> (aheadOnTotals b a \<and> tiedOnTotals a b)"
  by (auto simp: aheadOnTotals_def tiedOnTotals_def)

lemma aheadOnTotals_trans:
  "aheadOnTotals a b \<Longrightarrow> aheadOnTotals b c \<Longrightarrow> aheadOnTotals a c"
  by (auto simp: aheadOnTotals_def)

lemma ahead_tied: "aheadOnTotals a b \<Longrightarrow> tiedOnTotals b c \<Longrightarrow> aheadOnTotals a c"
  by (auto simp: aheadOnTotals_def tiedOnTotals_def)

lemma tied_ahead: "tiedOnTotals a b \<Longrightarrow> aheadOnTotals b c \<Longrightarrow> aheadOnTotals a c"
  by (auto simp: aheadOnTotals_def tiedOnTotals_def)

lemma tied_trans: "tiedOnTotals a b \<Longrightarrow> tiedOnTotals b c \<Longrightarrow> tiedOnTotals a c"
  by (auto simp: tiedOnTotals_def)

lemma ranksBefore_trans:
  assumes "\<And>x y z. lc x y < 0 \<Longrightarrow> lc y z < 0 \<Longrightarrow> lc x z < 0"
      and "ranksBefore lc a b" and "ranksBefore lc b c"
  shows "ranksBefore lc a c"
  using assms unfolding ranksBefore_def compare_neg_iff
  by (meson aheadOnTotals_trans ahead_tied tied_ahead tied_trans)

lemma ranksBefore_asym:
  assumes "\<And>x y. lc x y < 0 \<Longrightarrow> 0 < lc y x"
      and "ranksBefore lc a b"
  shows "\<not> ranksBefore lc b a"
  using assms(2) assms(1)[of "name a" "name b"] unfolding ranksBefore_def compare_neg_iff
  by (auto simp: aheadOnTotals_def tiedOnTotals_def)

lemma compare_le_iff:
  "compareStandings lc a b \<le> 0 \<longleftrightarrow>
     aheadOnTotals a b \<or> (tiedOnTotals a b \<and> lc (name a) (name b) \<le> 0)"
  by (auto simp: compareStandings_def aheadOnTotals_def tiedOnTotals_def)

lemma notBehind_trans:
  "notBehindOnTotals a b \<Longrightarrow> notBehindOnTotals b c \<Longrightarrow> notBehindOnTotals a c"
  by (auto simp: notBehindOnTotals_def aheadOnTotals_def)

lemma ahead_notBehind:
  "aheadOnTotals a b \<Longrightarrow> notBehindOnTotals b c \<Longrightarrow> aheadOnTotals a c"
  by (auto simp: notBehindOnTotals_def aheadOnTotals_def)

lemma notBehind_not_tied:
  "notBehindOnTotals a b \<Longrightarrow> \<not> tiedOnTotals a b \<Longrightarrow> aheadOnTotals a b"
  by (auto simp: notBehindOnTotals_def aheadOnTotals_def tiedOnTotals_def)

lemma sorted_three:
  assumes "sorted_wrt notBehindOnTotals [c, s, t]" and "\<not> tiedOnTotals c s"
  shows "aheadOnTotals c s \<and> aheadOnTotals c t"
proof -
  have cs: "notBehindOnTotals c s" and st: "notBehindOnTotals s t" using assms(1) by simp_all
  have a: "aheadOnTotals c s" by (rule notBehind_not_tied[OF cs assms(2)])
  have "aheadOnTotals c t" by (rule ahead_notBehind[OF a st])
  then show ?thesis using a by simp
qed

lemma sortStandings_totals_sorted:
  "sorted_wrt notBehindOnTotals (sortStandings lc xs)"
proof (induction xs)
  case Nil
  then show ?case by (simp add: sortStandings_def)
next
  case (Cons x xs)
  let ?cmp = "compareStandings lc"
  have srt: "sorted_wrt notBehindOnTotals (array_sort ?cmp xs)"
    using Cons by (simp add: sortStandings_def)
  have "sorted_wrt notBehindOnTotals (array_insert ?cmp x (array_sort ?cmp xs))"
  proof (rule sorted_array_insert_rel[OF _ _ _ srt])
    fix y assume "?cmp x y \<le> 0"
    then show "notBehindOnTotals x y"
      unfolding compare_le_iff notBehindOnTotals_def
      by (auto simp: aheadOnTotals_def tiedOnTotals_def)
  next
    fix y assume "0 < ?cmp x y"
    then show "notBehindOnTotals y x"
      unfolding compare_pos_iff notBehindOnTotals_def
      by (auto simp: aheadOnTotals_def tiedOnTotals_def)
  next
    fix y z assume "notBehindOnTotals x y" "notBehindOnTotals y z"
    then show "notBehindOnTotals x z" by (rule notBehind_trans)
  qed
  then show ?case by (simp add: sortStandings_def)
qed

lemma nameOrdering_anti: "nameOrdering lc \<Longrightarrow> (lc x y < 0) = (0 < lc y x)"
  unfolding nameOrdering_def by blast

lemma nameOrdering_trans: "nameOrdering lc \<Longrightarrow> lc x y \<le> 0 \<Longrightarrow> lc y z \<le> 0 \<Longrightarrow> lc x z \<le> 0"
  unfolding nameOrdering_def by blast

lemma nameOrdering_zero_sym: "nameOrdering lc \<Longrightarrow> lc x y = 0 \<Longrightarrow> lc y x = 0"
  using nameOrdering_anti[of lc x y] nameOrdering_anti[of lc y x] by linarith

lemma nameOrdering_less_trans:
  assumes no: "nameOrdering lc" and xy: "lc x y < 0" and yz: "lc y z < 0"
  shows "lc x z < 0"
proof (rule ccontr)
  assume "\<not> lc x z < 0"
  moreover have "lc x z \<le> 0" using nameOrdering_trans[OF no, of x y z] xy yz by simp
  ultimately have "lc x z = 0" by simp
  then have "lc z x \<le> 0" using nameOrdering_zero_sym[OF no] by simp
  then have "lc z y \<le> 0" using nameOrdering_trans[OF no, of z x y] xy by simp
  moreover have "0 < lc z y" using nameOrdering_anti[OF no, of y z] yz by simp
  ultimately show False by simp
qed

lemma ranksNotAfter_trans:
  assumes no: "nameOrdering lc" and ab: "ranksNotAfter lc a b" and bc: "ranksNotAfter lc b c"
  shows "ranksNotAfter lc a c"
proof -
  from ab have 1: "aheadOnTotals a b \<or> (tiedOnTotals a b \<and> lc (name a) (name b) \<le> 0)"
    by (simp add: ranksNotAfter_def compare_le_iff)
  from bc have 2: "aheadOnTotals b c \<or> (tiedOnTotals b c \<and> lc (name b) (name c) \<le> 0)"
    by (simp add: ranksNotAfter_def compare_le_iff)
  have "aheadOnTotals a c \<or> (tiedOnTotals a c \<and> lc (name a) (name c) \<le> 0)"
    using 1 2 nameOrdering_trans[OF no, of "name a" "name b" "name c"]
    by (meson aheadOnTotals_trans ahead_tied tied_ahead tied_trans)
  then show ?thesis by (simp add: ranksNotAfter_def compare_le_iff)
qed

lemma sortStandings_weakly_sorted:
  assumes no: "nameOrdering lc"
  shows "sorted_wrt (ranksNotAfter lc) (sortStandings lc xs)"
proof (induction xs)
  case Nil
  then show ?case by (simp add: sortStandings_def)
next
  case (Cons x xs)
  let ?cmp = "compareStandings lc"
  have srt: "sorted_wrt (ranksNotAfter lc) (array_sort ?cmp xs)"
    using Cons by (simp add: sortStandings_def)
  have "sorted_wrt (ranksNotAfter lc) (array_insert ?cmp x (array_sort ?cmp xs))"
  proof (rule sorted_array_insert_rel[OF _ _ _ srt])
    fix y assume "?cmp x y \<le> 0"
    then show "ranksNotAfter lc x y" by (simp add: ranksNotAfter_def)
  next
    fix y assume c: "0 < ?cmp x y"
    have t: "tiedOnTotals y x" if "tiedOnTotals x y" using that by (simp add: tiedOnTotals_def)
    have "?cmp y x < 0"
      using c t nameOrdering_anti[OF no, of "name y" "name x"]
      unfolding compare_pos_iff compare_neg_iff by blast
    then show "ranksNotAfter lc y x" by (simp add: ranksNotAfter_def)
  next
    fix y z assume "ranksNotAfter lc x y" "ranksNotAfter lc y z"
    then show "ranksNotAfter lc x z" by (rule ranksNotAfter_trans[OF no])
  qed
  then show ?case by (simp add: sortStandings_def)
qed

lemma namesToldApart_mset:
  assumes t: "namesToldApart lc xs" and m: "mset ys = mset xs"
  shows "namesToldApart lc ys"
proof -
  have "mset (map name ys) = mset (map name xs)" using m by (simp only: mset_map)
  from mset_eq_imp_distinct_iff[OF this] t have d: "distinct (map name ys)"
    by (simp only: namesToldApart_def)
  have "set_mset (mset ys) = set_mset (mset xs)" using m by (simp only:)
  then have "set ys = set xs" by (simp only: set_mset_mset)
  then show ?thesis using t d by (simp only: namesToldApart_def) blast
qed

lemma sortStandings_strictly_sorted:
  assumes no: "nameOrdering lc" and t: "namesToldApart lc xs"
  shows "sorted_wrt (ranksBefore lc) (sortStandings lc xs)"
proof -
  let ?s = "sortStandings lc xs"
  have w: "sorted_wrt (ranksNotAfter lc) ?s" by (rule sortStandings_weakly_sorted[OF no])
  have "mset ?s = mset xs" by (simp only: sortStandings_def mset_array_sort)
  then have ts: "namesToldApart lc ?s" by (rule namesToldApart_mset[OF t])
  then have d: "distinct (map name ?s)"
    and apart: "\<And>a b. a \<in> set ?s \<Longrightarrow> b \<in> set ?s \<Longrightarrow> name a \<noteq> name b \<Longrightarrow> lc (name a) (name b) \<noteq> 0"
    unfolding namesToldApart_def by blast+
  have "ranksBefore lc (?s ! i) (?s ! j)" if ij: "i < j" and j: "j < length ?s" for i j
  proof -
    have le: "compareStandings lc (?s ! i) (?s ! j) \<le> 0"
      using sorted_wrt_nth_less[OF w ij j] by (simp add: ranksNotAfter_def)
    have ne: "name (?s ! i) \<noteq> name (?s ! j)"
    proof
      assume e: "name (?s ! i) = name (?s ! j)"
      have li: "i < length (map name ?s)" and lj: "j < length (map name ?s)"
        using ij j by simp_all
      have "map name ?s ! i = map name ?s ! j" using e ij j by simp
      then have "i = j" using nth_eq_iff_index_eq[OF d li lj] by (simp only:)
      then show False using ij by simp
    qed
    have "lc (name (?s ! i)) (name (?s ! j)) \<noteq> 0"
      by (rule apart) (use ij j ne in simp_all)
    then have "compareStandings lc (?s ! i) (?s ! j) \<noteq> 0"
      by (simp add: compare_zero_iff)
    then show ?thesis using le by (simp add: ranksBefore_def)
  qed
  then show ?thesis by (simp add: sorted_wrt_iff_nth_less)
qed

lemma ranksBefore_asym_ord:
  assumes no: "nameOrdering lc" and ab: "ranksBefore lc a b"
  shows "\<not> ranksBefore lc b a"
  by (rule ranksBefore_asym[OF _ ab]) (simp add: nameOrdering_anti[OF no])

lemma ranksBefore_trans_ord:
  assumes no: "nameOrdering lc" and ab: "ranksBefore lc a b" and bc: "ranksBefore lc b c"
  shows "ranksBefore lc a c"
  by (rule ranksBefore_trans[OF _ ab bc]) (rule nameOrdering_less_trans[OF no])

lemma ranksBefore_total_ord:
  assumes no: "nameOrdering lc"
  shows "ranksBefore lc a b \<or> ranksBefore lc b a
         \<or> (tiedOnTotals a b \<and> lc (name a) (name b) = 0)"
proof (cases "tiedOnTotals a b")
  case True
  then have "tiedOnTotals b a" by (simp add: tiedOnTotals_def)
  moreover have "lc (name a) (name b) < 0 \<or> lc (name b) (name a) < 0 \<or> lc (name a) (name b) = 0"
    using nameOrdering_anti[OF no, of "name b" "name a"] by linarith
  ultimately show ?thesis using True unfolding ranksBefore_def compare_neg_iff by blast
next
  case False
  then have "aheadOnTotals a b \<or> aheadOnTotals b a" using totals_trichotomy by blast
  then show ?thesis unfolding ranksBefore_def compare_neg_iff by blast
qed

lemma sortStandings_order_independent:
  assumes no: "nameOrdering lc" and t: "namesToldApart lc xs" and m: "mset ys = mset xs"
  shows "sortStandings lc ys = sortStandings lc xs"
proof (rule sorted_wrt_unique[where R = "ranksBefore lc"])
  show "sorted_wrt (ranksBefore lc) (sortStandings lc ys)"
    by (rule sortStandings_strictly_sorted[OF no namesToldApart_mset[OF t m]])
  show "sorted_wrt (ranksBefore lc) (sortStandings lc xs)"
    by (rule sortStandings_strictly_sorted[OF no t])
  show "mset (sortStandings lc ys) = mset (sortStandings lc xs)"
    by (simp only: sortStandings_def mset_array_sort m)
  show "\<And>a b. ranksBefore lc a b \<Longrightarrow> \<not> ranksBefore lc b a"
    by (rule ranksBefore_asym_ord[OF no])
qed

section \<open>The comparison by character code\<close>

lemma ordinalCompare_zero: "ordinalCompare x y = 0 \<Longrightarrow> x = y"
proof (induction x y rule: ordinalCompare.induct)
  case (4 x xs y ys)
  have a: "\<not> (of_char x :: nat) < of_char y" using "4.prems" by (auto split: if_splits)
  have b: "\<not> (of_char y :: nat) < of_char x" using "4.prems" a by (auto split: if_splits)
  have "(of_char x :: nat) = of_char y" using a b by linarith
  then have "x = y" by simp
  moreover have "xs = ys" using 4 a b by simp
  ultimately show ?case by simp
qed simp_all

lemma ordinalCompare_anti: "(ordinalCompare x y < 0) = (0 < ordinalCompare y x)"
proof (induction x y rule: ordinalCompare.induct)
  case (4 x xs y ys)
  consider "(of_char x :: nat) < of_char y" | "(of_char y :: nat) < of_char x"
    | "\<not> (of_char x :: nat) < of_char y" "\<not> (of_char y :: nat) < of_char x"
    by linarith
  then show ?case
  proof cases
    case 1 then show ?thesis by simp
  next
    case 2 then show ?thesis by simp
  next
    case 3 then show ?thesis using 4 by simp
  qed
qed simp_all

lemma ordinalCompare_trans:
  "ordinalCompare x y < 0 \<Longrightarrow> ordinalCompare y z < 0 \<Longrightarrow> ordinalCompare x z < 0"
proof (induction x y arbitrary: z rule: ordinalCompare.induct)
  case 1
  then show ?case by simp
next
  case (2 y ys)
  then show ?case by (cases z) simp_all
next
  case (3 x xs)
  then show ?case by simp
next
  case (4 x xs y ys)
  obtain c cs where z: "z = c # cs" using "4.prems"(2) by (cases z) simp_all
  have xy: "(of_char x :: nat) \<le> of_char y"
    using "4.prems"(1) by (simp split: if_splits)
  have yc: "(of_char y :: nat) \<le> of_char c"
    using "4.prems"(2) z by (simp split: if_splits)
  show ?case
  proof (cases "(of_char x :: nat) < of_char c")
    case True
    then show ?thesis using z by simp
  next
    case False
    then have e1: "(of_char x :: nat) = of_char y" and e2: "(of_char y :: nat) = of_char c"
      using xy yc by linarith+
    have "ordinalCompare xs ys < 0" using "4.prems"(1) e1 by simp
    moreover have "ordinalCompare ys cs < 0" using "4.prems"(2) z e2 by simp
    ultimately have "ordinalCompare xs cs < 0" using "4.IH"[of cs] e1 by simp
    then show ?thesis using z e1 e2 by simp
  qed
qed

lemma nameOrdering_ordinalCompare: "nameOrdering ordinalCompare"
proof -
  have le: "ordinalCompare x z \<le> 0" if xy: "ordinalCompare x y \<le> 0" and yz: "ordinalCompare y z \<le> 0"
    for x y z
  proof (cases "ordinalCompare x y = 0")
    case True
    then have "x = y" by (rule ordinalCompare_zero)
    then show ?thesis using yz by simp
  next
    case False
    then have a: "ordinalCompare x y < 0" using xy by simp
    show ?thesis
    proof (cases "ordinalCompare y z = 0")
      case True
      then have "y = z" by (rule ordinalCompare_zero)
      then show ?thesis using xy by simp
    next
      case False
      then have "ordinalCompare y z < 0" using yz by simp
      then have "ordinalCompare x z < 0" using a by (rule ordinalCompare_trans[rotated])
      then show ?thesis by simp
    qed
  qed
  show ?thesis
    unfolding nameOrdering_def using ordinalCompare_anti le by blast
qed

lemma nameOrdering_canonicalCompare: "nameOrdering canonicalCompare"
  using nameOrdering_ordinalCompare
  unfolding nameOrdering_def canonicalCompare_def by blast

lemma toldApart_ordinalCompare:
  "distinct (map name xs) \<Longrightarrow> namesToldApart ordinalCompare xs"
  unfolding namesToldApart_def using ordinalCompare_zero by blast

lemma canonicalCompare_accent:
  "canonicalCompare composedName decomposedName = 0"
  "canonicalCompare decomposedName composedName = 0"
  by (simp_all add: canonicalCompare_def composedName_def decomposedName_def)

lemma accent_names_differ: "composedName \<noteq> decomposedName"
  by (simp add: composedName_def decomposedName_def)

section \<open>The sweep\<close>

lemma foldl_append_concat:
  "foldl (\<lambda>acc x. acc @ f x) acc xs = acc @ concat (map f xs)"
  by (induction xs arbitrary: acc) simp_all

lemma loopP_concat:
  "loopP lc n v p t posN posV acc = acc @ concat (map (cellP lc n v p t posN posV) [1..MAX_POS])"
proof -
  have "(\<lambda>acc posP.
        if posP \<le> 10 \<and> posN \<le> 10 \<and> posN = posP then acc
        else if posP \<le> 10 \<and> posV \<le> 10 \<and> posV = posP then acc
        else if targetWon (classify lc n v p posN posV posP) t
        then acc @ [\<lparr> norrisPos = posN, verstappenPos = posV, piastriPos = posP \<rparr>]
        else acc) = (\<lambda>acc posP. acc @ cellP lc n v p t posN posV posP)"
    by (intro ext) (simp add: cellP_def)
  then show ?thesis
    unfolding loopP_def by (simp only: foldl_append_concat)
qed

lemma loopV_concat:
  "loopV lc n v p t posN acc = acc @ concat (map (rowV lc n v p t posN) [1..MAX_POS])"
proof -
  have "(\<lambda>acc posV.
        if posN \<le> 10 \<and> posV \<le> 10 \<and> posN = posV then acc
        else loopP lc n v p t posN posV acc) = (\<lambda>acc posV. acc @ rowV lc n v p t posN posV)"
    by (intro ext) (simp add: rowV_def loopP_concat)
  then show ?thesis
    unfolding loopV_def by (simp only: foldl_append_concat)
qed

lemma loopN_concat:
  "loopN lc n v p t =
     concat (map (\<lambda>posN. concat (map (rowV lc n v p t posN) [1..MAX_POS])) [1..MAX_POS])"
proof -
  have "(\<lambda>acc posN. loopV lc n v p t posN acc)
        = (\<lambda>acc posN. acc @ concat (map (rowV lc n v p t posN) [1..MAX_POS]))"
    by (intro ext) (simp add: loopV_concat)
  then show ?thesis
    unfolding loopN_def by (simp only: foldl_append_concat append_Nil)
qed

lemma set_cellP:
  "sc \<in> set (cellP lc n v p t posN posV posP) \<longleftrightarrow>
     sc = \<lparr> norrisPos = posN, verstappenPos = posV, piastriPos = posP \<rparr>
     \<and> \<not> collides posN posP \<and> \<not> collides posV posP
     \<and> targetWon (classify lc n v p posN posV posP) t"
  by (auto simp: cellP_def collides_def)

lemma set_rowV:
  "sc \<in> set (rowV lc n v p t posN posV) \<longleftrightarrow>
     norrisPos sc = posN \<and> verstappenPos sc = posV
     \<and> 1 \<le> piastriPos sc \<and> piastriPos sc \<le> 11
     \<and> \<not> collides posN posV \<and> \<not> collides posN (piastriPos sc) \<and> \<not> collides posV (piastriPos sc)
     \<and> targetWon (classify lc n v p posN posV (piastriPos sc)) t"
  by (cases sc) (auto simp: rowV_def set_cellP MAX_POS_def collides_def)

lemma set_loopN:
  "sc \<in> set (loopN lc n v p t) \<longleftrightarrow>
     1 \<le> norrisPos sc \<and> norrisPos sc \<le> 11
     \<and> 1 \<le> verstappenPos sc \<and> verstappenPos sc \<le> 11
     \<and> 1 \<le> piastriPos sc \<and> piastriPos sc \<le> 11
     \<and> \<not> collides (norrisPos sc) (verstappenPos sc)
     \<and> \<not> collides (norrisPos sc) (piastriPos sc)
     \<and> \<not> collides (verstappenPos sc) (piastriPos sc)
     \<and> targetWon (classify lc n v p (norrisPos sc) (verstappenPos sc) (piastriPos sc)) t"
  by (auto simp: loopN_concat set_rowV MAX_POS_def)

lemma classify_champion:
  "champion (classify lc n v p posN posV posP) \<noteq> None"
proof -
  let ?l = "sortStandings lc [calculateDriverResult n (finishOf posN),
              calculateDriverResult v (finishOf posV), calculateDriverResult p (finishOf posP)]"
  have "length ?l = 3" by (simp add: sortStandings_def length_array_sort)
  then obtain a b c where "?l = [a, b, c]"
    by (auto simp: length_Suc_conv numeral_3_eq_3)
  then show ?thesis by (simp add: classify_def Let_def)
qed

lemma sorted_wrt_concat_map:
  fixes xs :: "int list"
  assumes "sorted_wrt (<) xs"
      and "\<And>x. x \<in> set xs \<Longrightarrow> sorted_wrt R (f x)"
      and "\<And>x y a b. x \<in> set xs \<Longrightarrow> y \<in> set xs \<Longrightarrow> x < y \<Longrightarrow> a \<in> set (f x) \<Longrightarrow> b \<in> set (f y) \<Longrightarrow> R a b"
  shows "sorted_wrt R (concat (map f xs))"
  using assms
proof (induction xs)
  case Nil
  then show ?case by simp
next
  case (Cons x xs)
  have s: "sorted_wrt (<) xs" and lt: "\<And>y. y \<in> set xs \<Longrightarrow> x < y"
    using Cons.prems(1) by simp_all
  have "sorted_wrt R (concat (map f xs))"
  proof (rule Cons.IH[OF s])
    show "\<And>y. y \<in> set xs \<Longrightarrow> sorted_wrt R (f y)"
      using Cons.prems(2) by simp
    show "\<And>y z a b. y \<in> set xs \<Longrightarrow> z \<in> set xs \<Longrightarrow> y < z \<Longrightarrow> a \<in> set (f y)
            \<Longrightarrow> b \<in> set (f z) \<Longrightarrow> R a b"
      by (rule Cons.prems(3)) simp_all
  qed
  moreover have "sorted_wrt R (f x)" using Cons.prems(2) by simp
  moreover have "R a b" if a: "a \<in> set (f x)" and b: "b \<in> set (concat (map f xs))" for a b
  proof -
    obtain y where y: "y \<in> set xs" "b \<in> set (f y)" using b by auto
    show ?thesis
      by (rule Cons.prems(3)[of x y]) (use y lt a in simp_all)
  qed
  ultimately show ?case by (simp add: sorted_wrt_append)
qed

lemma sorted_cellP: "sorted_wrt R (cellP lc n v p t posN posV posP)"
  by (simp add: cellP_def)

lemma sorted_rowV: "sorted_wrt sweepBefore (rowV lc n v p t posN posV)"
proof -
  have "sorted_wrt sweepBefore (concat (map (cellP lc n v p t posN posV) [1..MAX_POS]))"
  proof (rule sorted_wrt_concat_map)
    show "sorted_wrt (<) [1..MAX_POS]" by simp
    show "\<And>x. sorted_wrt sweepBefore (cellP lc n v p t posN posV x)" by (rule sorted_cellP)
    show "\<And>x y a b. x < y \<Longrightarrow> a \<in> set (cellP lc n v p t posN posV x)
            \<Longrightarrow> b \<in> set (cellP lc n v p t posN posV y) \<Longrightarrow> sweepBefore a b"
      by (simp add: set_cellP sweepBefore_def)
  qed
  then show ?thesis by (simp add: rowV_def)
qed

lemma sorted_loopN: "sorted_wrt sweepBefore (loopN lc n v p t)"
  unfolding loopN_concat
proof (rule sorted_wrt_concat_map)
  show "sorted_wrt (<) [1..MAX_POS]" by simp
next
  fix x
  show "sorted_wrt sweepBefore (concat (map (rowV lc n v p t x) [1..MAX_POS]))"
  proof (rule sorted_wrt_concat_map)
    show "sorted_wrt (<) [1..MAX_POS]" by simp
    show "\<And>y. sorted_wrt sweepBefore (rowV lc n v p t x y)" by (rule sorted_rowV)
    show "\<And>y z a b. y < z \<Longrightarrow> a \<in> set (rowV lc n v p t x y)
            \<Longrightarrow> b \<in> set (rowV lc n v p t x z) \<Longrightarrow> sweepBefore a b"
      by (simp add: set_rowV sweepBefore_def)
  qed
next
  fix x y :: int and a b
  assume "x < y" "a \<in> set (concat (map (rowV lc n v p t x) [1..MAX_POS]))"
    "b \<in> set (concat (map (rowV lc n v p t y) [1..MAX_POS]))"
  then show "sweepBefore a b"
    by (auto simp: set_rowV sweepBefore_def)
qed

lemma targetFirst_norris: "targetFirstBefore ''norris'' a b = sweepBefore a b"
  by (simp add: targetFirstBefore_def sweepBefore_def otherIds_def rivalPos_def)

lemma contenders_demoRoster: "contenders demoRoster = [norrisEntry, verstappenEntry, piastriEntry]"
  by (simp add: contenders_def demoRoster_def entry_defs)

lemma findWinningScenarios_demoRoster:
  "findWinningScenarios lc demoRoster t = Inr (loopN lc norrisEntry verstappenEntry piastriEntry t)"
  by (simp add: findWinningScenarios_def contenders_demoRoster)

lemma verstappen_wins_9_1_2: "targetWon (classify ordinalCompare norrisEntry verstappenEntry piastriEntry 9 1 2) ''verstappen''"
  by (simp add: classify_eval)

lemma verstappen_wins_8_2_3: "targetWon (classify ordinalCompare norrisEntry verstappenEntry piastriEntry 8 2 3) ''verstappen''"
  by (simp add: classify_eval)

lemma norris_wins_11_11_11: "targetWon (classify ordinalCompare norrisEntry verstappenEntry piastriEntry 11 11 11) ''norris''"
  by (simp add: classify_eval)

section \<open>Buckets, keys and constraints\<close>

lemma posOf_iff:
  "posOf sc ident =
     (if ident = ''norris'' then Some (norrisPos sc)
      else if ident = ''verstappen'' then Some (verstappenPos sc)
      else if ident = ''piastri'' then Some (piastriPos sc)
      else None)"
proof -
  have a: "''norrisPos'' = ''norris'' @ ''Pos''" by simp
  have b: "''verstappenPos'' = ''verstappen'' @ ''Pos''" by simp
  have c: "''piastriPos'' = ''piastri'' @ ''Pos''" by simp
  show ?thesis
    unfolding posOf_def a b c append_same_eq by simp
qed

lemma posOf_tracked:
  "ident \<in> set trackedIds \<Longrightarrow> posOf sc ident = Some (rivalPos ident sc)"
  by (auto simp: posOf_iff rivalPos_def trackedIds_def)

lemma posOf_russell: "posOf sc ''russell'' = None"
  by (simp add: posOf_iff)

lemma map_of_bucketPush:
  "map_of (bucketPush obj k sc) =
     (map_of obj)(k \<mapsto> (case map_of obj k of None \<Rightarrow> [sc] | Some b \<Rightarrow> b @ [sc]))"
  by (induction obj k sc rule: bucketPush.induct) (auto simp: fun_eq_iff)

lemma keys_bucketPush:
  "set (map fst (bucketPush obj k sc)) = insert k (set (map fst obj))"
  by (induction obj k sc rule: bucketPush.induct) auto

lemma distinct_bucketPush:
  "distinct (map fst obj) \<Longrightarrow> distinct (map fst (bucketPush obj k sc))"
proof (induction obj k sc rule: bucketPush.induct)
  case (1 k sc)
  then show ?case by simp
next
  case (2 k' b rest k sc)
  have "set (map fst (bucketPush rest k sc)) = insert k (set (map fst rest))"
    by (rule keys_bucketPush)
  then show ?case using 2 by auto
qed

lemma bucketsOf_snoc: "bucketsOf f (scs @ [sc]) = bucketPush (bucketsOf f scs) (f sc) sc"
  by (simp add: bucketsOf_def)

lemma map_of_bucketsOf:
  "map_of (bucketsOf f scs) k =
     (if k \<in> f ` set scs then Some (filter (\<lambda>sc. f sc = k) scs) else None)"
proof (induction scs arbitrary: k rule: rev_induct)
  case Nil
  then show ?case by (simp add: bucketsOf_def)
next
  case (snoc sc scs)
  show ?case
  proof (cases "k = f sc")
    case True
    have e: "f sc \<notin> f ` set scs \<Longrightarrow> filter (\<lambda>s. f s = f sc) scs = []"
      unfolding filter_empty_conv by (metis image_eqI)
    show ?thesis
      unfolding bucketsOf_snoc map_of_bucketPush True
      by (simp add: snoc[of "f sc"] e)
  next
    case False
    then show ?thesis
      unfolding bucketsOf_snoc map_of_bucketPush
      by (simp add: snoc[of k])
  qed
qed

lemma keys_bucketsOf: "set (map fst (bucketsOf f scs)) = f ` set scs"
proof (induction scs rule: rev_induct)
  case Nil
  then show ?case by (simp add: bucketsOf_def)
next
  case (snoc sc scs)
  show ?case
    unfolding bucketsOf_snoc keys_bucketPush using snoc by auto
qed

lemma distinct_bucketsOf: "distinct (map fst (bucketsOf f scs))"
proof (induction scs rule: rev_induct)
  case Nil
  then show ?case by (simp add: bucketsOf_def)
next
  case (snoc sc scs)
  then show ?case unfolding bucketsOf_snoc by (rule distinct_bucketPush)
qed

lemma bucketize_bucketsOf: "bucketize t scs = bucketsOf (\<lambda>sc. posOf sc t) scs"
  by (simp add: bucketize_def bucketsOf_def)

lemma set_objectKeys: "set (objectKeys obj) = set (map fst obj)"
  by (auto simp: objectKeys_def set_array_sort)

lemma distinct_objectKeys: "distinct (map fst obj) \<Longrightarrow> distinct (objectKeys obj)"
  by (auto simp: objectKeys_def distinct_array_sort set_array_sort)

lemma sorted_keys:
  assumes "distinct ks" and "None \<notin> set ks"
  shows "sorted_wrt (\<lambda>a b. keyCompare a b < 0) (array_sort keyCompare ks)"
  using assms
proof (induction ks)
  case Nil
  then show ?case by simp
next
  case (Cons k ks)
  then obtain n where k: "k = Some n" by (cases k) auto
  have nn: "None \<notin> set (array_sort keyCompare ks)" using Cons.prems by (simp add: set_array_sort)
  have kn: "k \<notin> set (array_sort keyCompare ks)" using Cons.prems by (simp add: set_array_sort)
  have srt: "sorted_wrt (\<lambda>a b. keyCompare a b < 0) (array_sort keyCompare ks)"
    using Cons by simp
  have "sorted_wrt (\<lambda>a b. keyCompare a b < 0) (array_insert keyCompare k (array_sort keyCompare ks))"
  proof (rule sorted_array_insert[OF _ _ _ srt])
    fix y assume m: "y \<in> set (array_sort keyCompare ks)" and c: "0 < keyCompare k y"
    have "y \<noteq> None" by (rule notI) (use m nn in simp)
    then show "keyCompare y k < 0"
      using c k by (cases y) (simp_all add: keyCompare_def keyToNumber_def)
  next
    fix y assume m: "y \<in> set (array_sort keyCompare ks)" and c: "keyCompare k y \<le> 0"
    have "y \<noteq> None" by (rule notI) (use m nn in simp)
    moreover have "y \<noteq> k" by (rule notI) (use m kn in simp)
    ultimately show "keyCompare k y < 0"
      using c k by (cases y) (simp_all add: keyCompare_def keyToNumber_def)
  next
    fix y z assume m: "y \<in> set (array_sort keyCompare ks)" "z \<in> set (array_sort keyCompare ks)"
      and c: "keyCompare k y < 0" "keyCompare y z < 0"
    have "y \<noteq> None" by (rule notI) (use m(1) nn in simp)
    moreover have "z \<noteq> None" by (rule notI) (use m(2) nn in simp)
    ultimately have "y \<noteq> None" "z \<noteq> None" by blast+
    then show "keyCompare k z < 0"
      using c k by (cases y; cases z) (simp_all add: keyCompare_def keyToNumber_def)
  qed
  then show ?case by simp
qed

lemma sorted_keys_unique:
  assumes "distinct ks" and "set ks = Some ` set ns"
  shows "array_sort keyCompare ks = map Some (sort (remdups ns))"
proof (rule sorted_wrt_unique[where R = "\<lambda>a b. keyCompare a b < 0"])
  have "None \<notin> set ks" using assms(2) by auto
  then show "sorted_wrt (\<lambda>a b. keyCompare a b < 0) (array_sort keyCompare ks)"
    using assms(1) by (rule sorted_keys[rotated])
next
  have "sorted_wrt (<) (sort (remdups ns))"
    by (simp add: strict_sorted_iff)
  then show "sorted_wrt (\<lambda>a b. keyCompare a b < 0) (map Some (sort (remdups ns)))"
    by (simp add: sorted_wrt_map keyCompare_def keyToNumber_def)
next
  have "distinct (array_sort keyCompare ks)" using assms(1) by (simp add: distinct_array_sort)
  moreover have "distinct (map Some (sort (remdups ns)))" by (simp add: distinct_map)
  moreover have "set (array_sort keyCompare ks) = set (map Some (sort (remdups ns)))"
    using assms(2) by (simp add: set_array_sort)
  ultimately show "mset (array_sort keyCompare ks) = mset (map Some (sort (remdups ns)))"
    by (simp only: set_eq_iff_mset_eq_distinct)
next
  fix a b
  assume "keyCompare a b < 0"
  then show "\<not> keyCompare b a < 0"
    by (cases a; cases b) (simp_all add: keyCompare_def keyToNumber_def)
qed

lemma initMinPos_apply_gen:
  "foldl (\<lambda>minPos ident. minPos(ident \<mapsto> 99)) m ids r = (if r \<in> set ids then Some 99 else m r)"
  by (induction ids arbitrary: m) auto

lemma initMinPos_apply: "initMinPos ids r = (if r \<in> set ids then Some 99 else None)"
  by (simp add: initMinPos_def initMinPos_apply_gen)

lemma lowerMinPos_apply:
  "lowerMinPos sc m i r =
     (if r = i then map_option (\<lambda>v. lowerTo v (posOf sc i)) (m i) else m r)"
  by (cases "m i") (auto simp: lowerMinPos_def lowerTo_def split: option.splits)

lemma lowerTo_idem: "lowerTo (lowerTo v p) p = lowerTo v p"
  by (auto simp: lowerTo_def split: option.splits)

lemma lowerMinPos_fold:
  "foldl (lowerMinPos sc) m ids r =
     (if r \<in> set ids then map_option (\<lambda>v. lowerTo v (posOf sc r)) (m r) else m r)"
proof (induction ids arbitrary: m)
  case Nil
  then show ?case by simp
next
  case (Cons i ids)
  have "foldl (lowerMinPos sc) m (i # ids) r = foldl (lowerMinPos sc) (lowerMinPos sc m i) ids r"
    by (simp only: foldl_Cons)
  also have "\<dots> = (if r \<in> set ids
                    then map_option (\<lambda>v. lowerTo v (posOf sc r)) (lowerMinPos sc m i r)
                    else lowerMinPos sc m i r)"
    by (rule Cons)
  also have "\<dots> = (if r \<in> set (i # ids)
                    then map_option (\<lambda>v. lowerTo v (posOf sc r)) (m r) else m r)"
    by (cases "m r") (auto simp: lowerMinPos_apply lowerTo_idem)
  finally show ?case .
qed

lemma scan_fold:
  "foldl (\<lambda>minPos sc. foldl (lowerMinPos sc) minPos ids) m scs r =
     (if r \<in> set ids
      then map_option (\<lambda>v. foldl lowerTo v (map (\<lambda>sc. posOf sc r) scs)) (m r)
      else m r)"
proof (induction scs arbitrary: m)
  case Nil
  then show ?case by (cases "m r") simp_all
next
  case (Cons sc scs)
  let ?m = "foldl (lowerMinPos sc) m ids"
  have "foldl (\<lambda>minPos sc. foldl (lowerMinPos sc) minPos ids) m (sc # scs) r
        = foldl (\<lambda>minPos sc. foldl (lowerMinPos sc) minPos ids) ?m scs r"
    by (simp only: foldl_Cons)
  also have "\<dots> = (if r \<in> set ids
                    then map_option (\<lambda>v. foldl lowerTo v (map (\<lambda>sc. posOf sc r) scs)) (?m r)
                    else ?m r)"
    by (rule Cons)
  also have "\<dots> = (if r \<in> set ids
                    then map_option (\<lambda>v. foldl lowerTo v (map (\<lambda>sc. posOf sc r) (sc # scs))) (m r)
                    else m r)"
    by (cases "m r") (simp_all add: lowerMinPos_fold)
  finally show ?case .
qed

lemma scanMinPos_apply:
  "scanMinPos scs ids r =
     (if r \<in> set ids then Some (foldl lowerTo 99 (map (\<lambda>sc. posOf sc r) scs)) else None)"
  by (simp add: scanMinPos_def scan_fold initMinPos_apply)

lemma lowerTo_min: "lowerTo m (Some q) = min m q"
  by (simp add: lowerTo_def min_def)

lemma foldl_lowerTo_Min:
  "foldl lowerTo v (map (\<lambda>sc. Some (f sc)) scs) = Min (insert v (f ` set scs))"
proof (induction scs arbitrary: v)
  case Nil
  then show ?case by simp
next
  case (Cons sc scs)
  have "Min (insert v (f ` set (sc # scs))) = Min (insert v (insert (f sc) (f ` set scs)))"
    by simp
  also have "\<dots> = min v (Min (insert (f sc) (f ` set scs)))"
    by (rule Min_insert) simp_all
  finally have a: "Min (insert v (f ` set (sc # scs))) = min v (Min (insert (f sc) (f ` set scs)))" .
  have b: "Min (insert (min v (f sc)) (f ` set scs)) = min v (Min (insert (f sc) (f ` set scs)))"
  proof (cases "scs = []")
    case True
    then show ?thesis by simp
  next
    case False
    then have ne: "f ` set scs \<noteq> {}" by simp
    show ?thesis
      by (simp add: Min_insert[OF _ ne] min.assoc)
  qed
  show ?case
    by (simp only: list.map foldl_Cons Cons lowerTo_min a b)
qed

lemma displayPos_Some: "displayPos (Some n) = positionLabel n"
  by (simp add: displayPos_def positionLabel_def keyToNumber_def keyToString_def)

lemma positionLabel_cap:
  "positionLabel (min 99 n) = positionLabel n"
  by (simp add: positionLabel_def min_def)

lemma constraint_tracked:
  assumes "r \<in> set ids" and "r \<in> set trackedIds" and "bucket \<noteq> []"
  shows "constraintText r (scanMinPos bucket ids r) = rivalConstraint r bucket"
proof -
  have "(\<lambda>sc. posOf sc r) = (\<lambda>sc. Some (rivalPos r sc))"
    using assms(2) by (simp add: posOf_tracked)
  then have "scanMinPos bucket ids r = Some (Min (insert 99 (rivalPos r ` set bucket)))"
    using assms(1) by (simp add: scanMinPos_apply foldl_lowerTo_Min)
  moreover have "Min (insert 99 (rivalPos r ` set bucket)) = min 99 (Min (rivalPos r ` set bucket))"
    using assms(3) by (intro Min_insert) simp_all
  ultimately show ?thesis
    by (simp add: constraintText_def rivalConstraint_def displayPos_Some positionLabel_cap)
qed

lemma otherIds_tracked: "set (otherIds t) \<subseteq> set trackedIds"
  by (auto simp: otherIds_def trackedIds_def)

lemma summarize_tracked:
  assumes "bucket \<noteq> []"
  shows "summarizeConstraints bucket (otherIds t)
           = join '' AND <br>'' (map (\<lambda>r. rivalConstraint r bucket) (otherIds t))"
proof -
  have "map (\<lambda>ident. constraintText ident (scanMinPos bucket (otherIds t) ident)) (otherIds t)
        = map (\<lambda>r. rivalConstraint r bucket) (otherIds t)"
    using otherIds_tracked[of t] assms by (intro map_cong refl constraint_tracked) auto
  then show ?thesis
    unfolding summarizeConstraints_def Let_def by (simp only:)
qed

lemma groupScenarios_tracked:
  assumes t: "t \<in> set trackedIds"
  shows "groupScenarios t scs =
           map (\<lambda>k. \<lparr> position = positionLabel k,
                      description = summarizeConstraints (filter (\<lambda>sc. rivalPos t sc = k) scs) (otherIds t) \<rparr>)
               (sort (remdups (map (rivalPos t) scs)))"
proof -
  let ?f = "\<lambda>sc. Some (rivalPos t sc)"
  let ?obj = "bucketsOf ?f scs"
  have f: "(\<lambda>sc. posOf sc t) = ?f" using t by (simp add: posOf_tracked)
  have obj: "bucketize t scs = ?obj" by (simp add: bucketize_bucketsOf f)
  have keys: "array_sort keyCompare (objectKeys ?obj) = map Some (sort (remdups (map (rivalPos t) scs)))"
  proof (rule sorted_keys_unique)
    show "distinct (objectKeys ?obj)" by (rule distinct_objectKeys) (rule distinct_bucketsOf)
    show "set (objectKeys ?obj) = Some ` set (map (rivalPos t) scs)"
      using keys_bucketsOf[of ?f scs] by (simp add: set_objectKeys image_image)
  qed
  have look: "(case map_of ?obj (Some k) of Some b \<Rightarrow> b | None \<Rightarrow> [])
                = filter (\<lambda>sc. rivalPos t sc = k) scs"
    if "k \<in> rivalPos t ` set scs" for k
    using that by (simp add: map_of_bucketsOf image_iff)
  show ?thesis
    unfolding groupScenarios_def Let_def obj keys map_map
    by (rule map_cong) (simp_all add: look displayPos_Some)
qed

lemma capitalize_verstappen: "capitalize ''verstappen'' = ''Verstappen''"
  by code_simp

lemma capitalize_piastri: "capitalize ''piastri'' = ''Piastri''"
  by code_simp

lemma natToString_4: "natToString 4 = ''4''" by code_simp
lemma natToString_5: "natToString 5 = ''5''" by code_simp

lemma exampleBucket_description:
  "map description (groupScenarios ''norris'' exampleBucket)
     = [''Verstappen finishes P4 or lower AND <br>Piastri finishes P5 or lower'']"
proof -
  have t: "''norris'' \<in> set trackedIds" by (simp add: trackedIds_def)
  have o: "otherIds ''norris'' = [''verstappen'', ''piastri'']" by (simp add: otherIds_def)
  have f: "filter (\<lambda>sc. rivalPos ''norris'' sc = 1) exampleBucket = exampleBucket"
    by (simp add: exampleBucket_def rivalPos_def)
  have ne: "exampleBucket \<noteq> []" by (simp add: exampleBucket_def)
  have v: "rivalConstraint ''verstappen'' exampleBucket = ''Verstappen finishes P4 or lower''"
    by (simp add: rivalConstraint_def capitalize_verstappen exampleBucket_def rivalPos_def
        positionLabel_def numberToString_def natToString_4)
  have p: "rivalConstraint ''piastri'' exampleBucket = ''Piastri finishes P5 or lower''"
    by (simp add: rivalConstraint_def capitalize_piastri exampleBucket_def rivalPos_def
        positionLabel_def numberToString_def natToString_5)
  have s: "sort (remdups (map (rivalPos ''norris'') exampleBucket)) = [1]"
    by (simp add: exampleBucket_def rivalPos_def)
  have "summarizeConstraints exampleBucket (otherIds ''norris'')
          = join '' AND <br>'' (map (\<lambda>r. rivalConstraint r exampleBucket) (otherIds ''norris''))"
    by (rule summarize_tracked[OF ne])
  also have "\<dots> = ''Verstappen finishes P4 or lower AND <br>Piastri finishes P5 or lower''"
    by (simp add: o v p)
  finally have st: "summarizeConstraints exampleBucket (otherIds ''norris'')
              = ''Verstappen finishes P4 or lower AND <br>Piastri finishes P5 or lower''" .
  show ?thesis
    unfolding groupScenarios_tracked[OF t] s
    by (simp add: f st)
qed

section \<open>The claims\<close>

text \<open>
  Claim C1.  Every scenario in the list returned by \<open>findWinningScenarios\<close> for a target
  is won outright by that target.  The three results computed by
  \<open>calculateDriverResult\<close> (position 11 passed as \<open>null\<close>) are put by \<open>sortStandings\<close>
  into an order whose first entry carries the target's id; \<open>determineChampion\<close> returns
  that entry as champion with \<open>isTie\<close> false; and the champion is strictly ahead of each
  of the other two results on final points, then final wins, then final podiums.  So
  no scenario in which another contender equals the leader on all three totals is in
  the list, whatever the name comparison is.
\<close>

theorem findWinningScenarios_champion:
  assumes "contenders BASE_DRIVERS = norris # verstappen # piastri # rest"
      and "findWinningScenarios lc BASE_DRIVERS targetId = Inr scs"
      and "sc \<in> set scs"
  shows "\<exists>c s t.
           sortStandings lc
             [calculateDriverResult norris (finishOf (norrisPos sc)),
              calculateDriverResult verstappen (finishOf (verstappenPos sc)),
              calculateDriverResult piastri (finishOf (piastriPos sc))] = [c, s, t]
         \<and> mset [c, s, t] = mset
             [calculateDriverResult norris (finishOf (norrisPos sc)),
              calculateDriverResult verstappen (finishOf (verstappenPos sc)),
              calculateDriverResult piastri (finishOf (piastriPos sc))]
         \<and> determineChampion [c, s, t] = \<lparr> champion = Some c, second = Some s, isTie = False \<rparr>
         \<and> driver_id c = targetId
         \<and> aheadOnTotals c s \<and> aheadOnTotals c t"
proof -
  let ?rs = "[calculateDriverResult norris (finishOf (norrisPos sc)),
              calculateDriverResult verstappen (finishOf (verstappenPos sc)),
              calculateDriverResult piastri (finishOf (piastriPos sc))]"
  have "scs = loopN lc norris verstappen piastri targetId"
    using assms(1,2) by (simp add: findWinningScenarios_def)
  then have won: "targetWon (classify lc norris verstappen piastri
                 (norrisPos sc) (verstappenPos sc) (piastriPos sc)) targetId"
    using assms(3) by (simp add: set_loopN)
  have "length (sortStandings lc ?rs) = 3"
    by (simp add: sortStandings_def length_array_sort)
  then obtain c s t where e: "sortStandings lc ?rs = [c, s, t]"
    by (auto simp: length_Suc_conv numeral_3_eq_3)
  have "mset (sortStandings lc ?rs) = mset ?rs"
    by (simp only: sortStandings_def mset_array_sort)
  then have m: "mset [c, s, t] = mset ?rs" by (simp only: e)
  have w: "targetWon (determineChampion [c, s, t]) targetId"
    using won e by (simp add: classify_def Let_def)
  then have i: "driver_id c = targetId" and nt: "\<not> tiedOnTotals c s"
    by (simp_all add: targetWon_def tiedOnTotals_def)
  have dc: "determineChampion [c, s, t] = \<lparr> champion = Some c, second = Some s, isTie = False \<rparr>"
    using nt by (simp add: tiedOnTotals_def)
  have "sorted_wrt notBehindOnTotals (sortStandings lc ?rs)"
    by (rule sortStandings_totals_sorted)
  then have "sorted_wrt notBehindOnTotals [c, s, t]" by (simp only: e)
  then have a: "aheadOnTotals c s \<and> aheadOnTotals c t" by (rule sorted_three[OF _ nt])
  show ?thesis
    by (intro exI[of _ c] exI[of _ s] exI[of _ t] conjI)
       (fact e m dc i conjunct1[OF a] conjunct2[OF a])+
qed

theorem findWinningScenarios_champion_witness:
  "contenders demoRoster = norrisEntry # verstappenEntry # piastriEntry # []
   \<and> findWinningScenarios ordinalCompare demoRoster ''verstappen''
        = Inr (loopN ordinalCompare norrisEntry verstappenEntry piastriEntry ''verstappen'')
   \<and> \<lparr> norrisPos = 9, verstappenPos = 1, piastriPos = 2 \<rparr>
        \<in> set (loopN ordinalCompare norrisEntry verstappenEntry piastriEntry ''verstappen'')
   \<and> (\<exists>c s t.
           sortStandings ordinalCompare
             [calculateDriverResult norrisEntry (Some 9),
              calculateDriverResult verstappenEntry (Some 1),
              calculateDriverResult piastriEntry (Some 2)] = [c, s, t]
         \<and> mset [c, s, t] = mset
             [calculateDriverResult norrisEntry (Some 9),
              calculateDriverResult verstappenEntry (Some 1),
              calculateDriverResult piastriEntry (Some 2)]
         \<and> determineChampion [c, s, t] = \<lparr> champion = Some c, second = Some s, isTie = False \<rparr>
         \<and> driver_id c = ''verstappen''
         \<and> aheadOnTotals c s \<and> aheadOnTotals c t)"
proof -
  have m: "\<lparr> norrisPos = 9, verstappenPos = 1, piastriPos = 2 \<rparr>
        \<in> set (loopN ordinalCompare norrisEntry verstappenEntry piastriEntry ''verstappen'')"
    by (simp add: set_loopN collides_def verstappen_wins_9_1_2)
  have c: "contenders demoRoster = norrisEntry # verstappenEntry # piastriEntry # []"
    by (rule contenders_demoRoster)
  have f: "findWinningScenarios ordinalCompare demoRoster ''verstappen''
        = Inr (loopN ordinalCompare norrisEntry verstappenEntry piastriEntry ''verstappen'')"
    by (rule findWinningScenarios_demoRoster)
  have fo: "finishOf 9 = Some 9" "finishOf 1 = Some 1" "finishOf 2 = Some 2"
    by (simp_all add: finishOf_def)
  note t = findWinningScenarios_champion[OF c f m, simplified scenario.simps fo]
  show ?thesis
    by (intro conjI) (fact c f m t)+
qed

text \<open>
  Claim C2.  The race points of \<open>calculateDriverResult\<close> are the table value
  25, 18, 15, 12, 10, 8, 6, 4, 2, 1 for a position from 1 to 10, and 0 for any other
  integer and for \<open>null\<close>; the final points are the points before the race plus the
  race points.
\<close>

theorem calculateDriverResult_points:
  "racePoints (calculateDriverResult d (Some p)) = (if 1 \<le> p \<and> p \<le> 10 then tablePoints p else 0)
   \<and> racePoints (calculateDriverResult d None) = 0
   \<and> finalPoints (calculateDriverResult d fin) = points d + racePoints (calculateDriverResult d fin)"
  by (simp add: calculateDriverResult_def race_points_table Let_def)

theorem calculateDriverResult_points_witness:
  "racePoints (calculateDriverResult norrisEntry (Some 3)) = 15
   \<and> racePoints (calculateDriverResult norrisEntry (Some 12)) = 0
   \<and> racePoints (calculateDriverResult norrisEntry None) = 0
   \<and> finalPoints (calculateDriverResult norrisEntry (Some 3)) = 423"
  using calculateDriverResult_points[of norrisEntry 3 "Some 3"]
    calculateDriverResult_points[of norrisEntry 12 None]
  by (simp add: tablePoints_def norrisEntry_def)

text \<open>
  Claim C3.  With a name comparison that is a consistent comparator (as the language
  standard requires of \<open>localeCompare\<close>), the standings comparator orders results by
  final points descending, then final wins descending, then final podiums descending,
  then name ascending.  For any two results exactly one of three cases holds on the
  totals: the first is ahead, the second is ahead, or they are tied on all three; when
  they are tied the comparator is the name comparison.  "Ranks before" is asymmetric
  and transitive, and of two results one ranks before the other unless they are tied on
  the totals and their names compare equal.  \<open>sortStandings\<close> returns a permutation of
  its input in which no result ranks after a later one.  When the names of the list are
  distinct and the name comparison tells them apart, the output is strictly ordered and
  does not depend on the order of the input.  Distinct names alone are not enough: the
  host compares canonically equivalent names as equal, and two results tied on the
  totals with such names come out in their input order.
\<close>

theorem sortStandings_total_order:
  assumes no: "nameOrdering lc"
  shows "(ranksBefore lc a b \<longleftrightarrow>
            aheadOnTotals a b \<or> (tiedOnTotals a b \<and> lc (name a) (name b) < 0))
       \<and> (tiedOnTotals a b \<longrightarrow> compareStandings lc a b = lc (name a) (name b))
       \<and> (aheadOnTotals a b \<or> aheadOnTotals b a \<or> tiedOnTotals a b)
       \<and> \<not> (aheadOnTotals a b \<and> aheadOnTotals b a)
       \<and> \<not> (aheadOnTotals a b \<and> tiedOnTotals a b)
       \<and> \<not> (aheadOnTotals b a \<and> tiedOnTotals a b)
       \<and> \<not> (ranksBefore lc a b \<and> ranksBefore lc b a)
       \<and> (ranksBefore lc a b \<and> ranksBefore lc b c \<longrightarrow> ranksBefore lc a c)
       \<and> (ranksBefore lc a b \<or> ranksBefore lc b a
            \<or> (tiedOnTotals a b \<and> lc (name a) (name b) = 0))
       \<and> sorted_wrt (ranksNotAfter lc) (sortStandings lc xs)
       \<and> mset (sortStandings lc xs) = mset xs
       \<and> (namesToldApart lc xs \<longrightarrow>
             sorted_wrt (ranksBefore lc) (sortStandings lc xs)
             \<and> (\<forall>ys. mset ys = mset xs \<longrightarrow> sortStandings lc ys = sortStandings lc xs))"
proof -
  have 1: "ranksBefore lc a b \<longleftrightarrow>
            aheadOnTotals a b \<or> (tiedOnTotals a b \<and> lc (name a) (name b) < 0)"
    by (simp add: ranksBefore_def compare_neg_iff)
  have 2: "tiedOnTotals a b \<longrightarrow> compareStandings lc a b = lc (name a) (name b)"
    by (simp add: tiedOnTotals_def compareStandings_def)
  have 3: "\<not> (ranksBefore lc a b \<and> ranksBefore lc b a)"
    using ranksBefore_asym_ord[OF no, of a b] by blast
  have 4: "ranksBefore lc a b \<and> ranksBefore lc b c \<longrightarrow> ranksBefore lc a c"
    using ranksBefore_trans_ord[OF no, of a b c] by blast
  note 5 = ranksBefore_total_ord[OF no, of a b]
  have 6: "sorted_wrt (ranksNotAfter lc) (sortStandings lc xs)"
    by (rule sortStandings_weakly_sorted[OF no])
  have 7: "mset (sortStandings lc xs) = mset xs"
    by (simp only: sortStandings_def mset_array_sort)
  have 8: "namesToldApart lc xs \<longrightarrow>
             sorted_wrt (ranksBefore lc) (sortStandings lc xs)
             \<and> (\<forall>ys. mset ys = mset xs \<longrightarrow> sortStandings lc ys = sortStandings lc xs)"
  proof (intro impI conjI allI)
    assume t: "namesToldApart lc xs"
    show "sorted_wrt (ranksBefore lc) (sortStandings lc xs)"
      by (rule sortStandings_strictly_sorted[OF no t])
    fix ys assume m: "mset ys = mset xs"
    show "sortStandings lc ys = sortStandings lc xs"
      by (rule sortStandings_order_independent[OF no t m])
  qed
  note tri = totals_trichotomy[of a b]
  note tri1 = conjunct1[OF tri]
  note tri2 = conjunct1[OF conjunct2[OF tri]]
  note tri3 = conjunct1[OF conjunct2[OF conjunct2[OF tri]]]
  note tri4 = conjunct2[OF conjunct2[OF conjunct2[OF tri]]]
  show ?thesis
    by (intro conjI) (fact 1 2 3 4 5 6 7 8 tri1 tri2 tri3 tri4)+
qed

theorem sortStandings_total_order_witness:
  "nameOrdering ordinalCompare
   \<and> namesToldApart ordinalCompare exampleResults
   \<and> sortStandings ordinalCompare exampleResults
       = [calculateDriverResult norrisEntry None,
          calculateDriverResult verstappenEntry (Some 4),
          calculateDriverResult piastriEntry (Some 5)]
   \<and> sorted_wrt (ranksNotAfter ordinalCompare) (sortStandings ordinalCompare exampleResults)
   \<and> sorted_wrt (ranksBefore ordinalCompare) (sortStandings ordinalCompare exampleResults)
   \<and> sortStandings ordinalCompare (rev exampleResults) = sortStandings ordinalCompare exampleResults
   \<and> tiedOnTotals (calculateDriverResult norrisEntry None)
        (calculateDriverResult verstappenEntry (Some 4))
   \<and> ranksBefore ordinalCompare (calculateDriverResult norrisEntry None)
        (calculateDriverResult verstappenEntry (Some 4))
   \<and> ranksBefore ordinalCompare (calculateDriverResult verstappenEntry (Some 4))
        (calculateDriverResult piastriEntry (Some 5))
   \<and> ranksBefore ordinalCompare (calculateDriverResult norrisEntry None)
        (calculateDriverResult piastriEntry (Some 5))"
proof -
  let ?a = "calculateDriverResult norrisEntry None"
  let ?b = "calculateDriverResult verstappenEntry (Some 4)"
  let ?c = "calculateDriverResult piastriEntry (Some 5)"
  note t = sortStandings_total_order[OF nameOrdering_ordinalCompare, of ?a ?b ?c exampleResults]
  have d: "distinct (map name exampleResults)"
    by (simp add: exampleResults_def calculateDriverResult_def Let_def entry_defs)
  have ta: "namesToldApart ordinalCompare exampleResults"
    by (rule toldApart_ordinalCompare[OF d])
  have tie: "tiedOnTotals ?a ?b"
    by (simp add: tiedOnTotals_def calculateDriverResult_def RACE_POINTS_def Let_def entry_defs)
  have r1: "ranksBefore ordinalCompare ?a ?b"
    by (simp add: ranksBefore_def compareStandings_def calculateDriverResult_def RACE_POINTS_def
        Let_def entry_defs)
  have r2: "ranksBefore ordinalCompare ?b ?c"
    by (simp add: ranksBefore_def compareStandings_def calculateDriverResult_def RACE_POINTS_def
        Let_def entry_defs)
  have t4: "ranksBefore ordinalCompare ?a ?b \<and> ranksBefore ordinalCompare ?b ?c
              \<longrightarrow> ranksBefore ordinalCompare ?a ?c"
    using t by (elim conjE) assumption
  have t6: "sorted_wrt (ranksNotAfter ordinalCompare) (sortStandings ordinalCompare exampleResults)"
    using t by (elim conjE) assumption
  have t8: "namesToldApart ordinalCompare exampleResults \<longrightarrow>
             sorted_wrt (ranksBefore ordinalCompare) (sortStandings ordinalCompare exampleResults)
             \<and> (\<forall>ys. mset ys = mset exampleResults \<longrightarrow>
                   sortStandings ordinalCompare ys = sortStandings ordinalCompare exampleResults)"
    using t by (elim conjE) assumption
  have r3: "ranksBefore ordinalCompare ?a ?c"
    by (rule mp[OF t4]) (intro conjI r1 r2)
  note t8' = mp[OF t8 ta]
  have s: "sorted_wrt (ranksBefore ordinalCompare) (sortStandings ordinalCompare exampleResults)"
    by (rule conjunct1[OF t8'])
  have e: "sortStandings ordinalCompare exampleResults = [?a, ?b, ?c]"
    by (simp add: exampleResults_def sortStandings_def compareStandings_def
        calculateDriverResult_def RACE_POINTS_def Let_def entry_defs)
  have m: "mset (rev exampleResults) = mset exampleResults" by (simp only: mset_rev)
  have u: "sortStandings ordinalCompare (rev exampleResults)
                  = sortStandings ordinalCompare exampleResults"
    by (rule mp[OF spec[OF conjunct2[OF t8']] m])
  show ?thesis
    by (intro conjI) (fact nameOrdering_ordinalCompare ta e t6 s u tie r1 r2 r3)+
qed

theorem distinct_names_counterexample:
  "nameOrdering canonicalCompare
   \<and> distinct (map name accentResults)
   \<and> sortStandings canonicalCompare accentResults
        = [calculateDriverResult composedEntry None, calculateDriverResult decomposedEntry None]
   \<and> sortStandings canonicalCompare (rev accentResults)
        = [calculateDriverResult decomposedEntry None, calculateDriverResult composedEntry None]
   \<and> sortStandings canonicalCompare (rev accentResults) \<noteq> sortStandings canonicalCompare accentResults"
proof -
  have d: "distinct (map name accentResults)"
    by (simp add: accentResults_def calculateDriverResult_def Let_def composedEntry_def
        decomposedEntry_def accent_names_differ)
  have a: "sortStandings canonicalCompare accentResults
        = [calculateDriverResult composedEntry None, calculateDriverResult decomposedEntry None]"
    by (simp add: accentResults_def sortStandings_def compareStandings_def
        calculateDriverResult_def Let_def composedEntry_def decomposedEntry_def
        canonicalCompare_accent)
  have b: "sortStandings canonicalCompare (rev accentResults)
        = [calculateDriverResult decomposedEntry None, calculateDriverResult composedEntry None]"
    by (simp add: accentResults_def sortStandings_def compareStandings_def
        calculateDriverResult_def Let_def composedEntry_def decomposedEntry_def
        canonicalCompare_accent)
  have c: "sortStandings canonicalCompare (rev accentResults) \<noteq> sortStandings canonicalCompare accentResults"
    unfolding a b
    by (simp add: calculateDriverResult_def Let_def composedEntry_def decomposedEntry_def
        accent_names_differ)
  show ?thesis
    by (intro conjI) (fact nameOrdering_canonicalCompare d a b c)+
qed

text \<open>
  Claim C4.  On a sequence with at least two entries \<open>determineChampion\<close> returns the
  entry at position 0 as champion and the entry at position 1 as second, and \<open>isTie\<close> is
  true exactly when the two are equal on final points, final wins and final podiums.
  On a sequence with exactly one entry it returns that entry as champion, no second,
  and \<open>isTie\<close> false.
\<close>

theorem determineChampion_classifies:
  "(2 \<le> length xs \<longrightarrow>
      champion (determineChampion xs) = Some (xs ! 0)
      \<and> second (determineChampion xs) = Some (xs ! 1)
      \<and> (isTie (determineChampion xs) \<longleftrightarrow>
            finalPoints (xs ! 0) = finalPoints (xs ! 1)
            \<and> finalWins (xs ! 0) = finalWins (xs ! 1)
            \<and> finalPodiums (xs ! 0) = finalPodiums (xs ! 1)))
   \<and> (length xs = 1 \<longrightarrow>
      champion (determineChampion xs) = Some (xs ! 0)
      \<and> second (determineChampion xs) = None
      \<and> \<not> isTie (determineChampion xs))"
proof (cases xs)
  case Nil
  then show ?thesis by simp
next
  case (Cons a ys)
  then show ?thesis by (cases ys) simp_all
qed

theorem determineChampion_classifies_witness:
  "2 \<le> length [calculateDriverResult verstappenEntry (Some 1), calculateDriverResult norrisEntry (Some 9)]
   \<and> champion (determineChampion
        [calculateDriverResult verstappenEntry (Some 1), calculateDriverResult norrisEntry (Some 9)])
      = Some (calculateDriverResult verstappenEntry (Some 1))
   \<and> second (determineChampion
        [calculateDriverResult verstappenEntry (Some 1), calculateDriverResult norrisEntry (Some 9)])
      = Some (calculateDriverResult norrisEntry (Some 9))
   \<and> \<not> isTie (determineChampion
        [calculateDriverResult verstappenEntry (Some 1), calculateDriverResult norrisEntry (Some 9)])
   \<and> length [calculateDriverResult norrisEntry None] = 1
   \<and> champion (determineChampion [calculateDriverResult norrisEntry None])
      = Some (calculateDriverResult norrisEntry None)
   \<and> second (determineChampion [calculateDriverResult norrisEntry None]) = None
   \<and> \<not> isTie (determineChampion [calculateDriverResult norrisEntry None])"
  using determineChampion_classifies[of
      "[calculateDriverResult verstappenEntry (Some 1), calculateDriverResult norrisEntry (Some 9)]"]
    determineChampion_classifies[of "[calculateDriverResult norrisEntry None]"]
  by (simp add: calculateDriverResult_def RACE_POINTS_def Let_def entry_defs)

text \<open>
  Claim C5.  No scenario returned by \<open>findWinningScenarios\<close> gives the same scoring
  position to two contenders: two contenders with equal positions are both at 11, the
  no-points value, and every position lies between 1 and 11.  The instance shows a
  returned scenario in which all three contenders share the value 11.
\<close>

theorem findWinningScenarios_no_collision:
  assumes "findWinningScenarios lc BASE_DRIVERS targetId = Inr scs"
      and "sc \<in> set scs"
  shows "(norrisPos sc = verstappenPos sc \<longrightarrow> norrisPos sc = 11)
       \<and> (norrisPos sc = piastriPos sc \<longrightarrow> norrisPos sc = 11)
       \<and> (verstappenPos sc = piastriPos sc \<longrightarrow> verstappenPos sc = 11)
       \<and> norrisPos sc \<in> {1..11} \<and> verstappenPos sc \<in> {1..11} \<and> piastriPos sc \<in> {1..11}"
proof -
  obtain n v p where "scs = loopN lc n v p targetId"
    using assms(1) by (auto simp: findWinningScenarios_def split: list.splits)
  then show ?thesis
    using assms(2) by (auto simp: set_loopN collides_def)
qed

theorem findWinningScenarios_no_collision_witness:
  "findWinningScenarios ordinalCompare demoRoster ''norris''
        = Inr (loopN ordinalCompare norrisEntry verstappenEntry piastriEntry ''norris'')
   \<and> \<lparr> norrisPos = 11, verstappenPos = 11, piastriPos = 11 \<rparr>
        \<in> set (loopN ordinalCompare norrisEntry verstappenEntry piastriEntry ''norris'')"
proof -
  have m: "\<lparr> norrisPos = 11, verstappenPos = 11, piastriPos = 11 \<rparr>
        \<in> set (loopN ordinalCompare norrisEntry verstappenEntry piastriEntry ''norris'')"
    by (simp add: set_loopN collides_def norris_wins_11_11_11)
  have f: "findWinningScenarios ordinalCompare demoRoster ''norris''
        = Inr (loopN ordinalCompare norrisEntry verstappenEntry piastriEntry ''norris'')"
    by (rule findWinningScenarios_demoRoster)
  show ?thesis
    using findWinningScenarios_no_collision[OF f m] f m by simp
qed

text \<open>
  Claim C6.  \<open>calculateDriverResult\<close> at the finishing position 0: no race points and no
  win, but one podium more than before the race, the podium test being
  \<open>finishingPos <= 3\<close> without the lower bound that the points test has.
\<close>

theorem calculateDriverResult_podium_at_zero:
  "finalPodiums (calculateDriverResult norrisEntry (Some 0)) = podiums norrisEntry + 1
   \<and> finalWins (calculateDriverResult norrisEntry (Some 0)) = wins norrisEntry
   \<and> racePoints (calculateDriverResult norrisEntry (Some 0)) = 0"
  by (simp add: calculateDriverResult_def Let_def)

text \<open>
  Claim C7.  The list returned by \<open>findWinningScenarios\<close> is in the order of the
  three loops whatever the target is: strictly ascending in Norris's position, then
  Verstappen's, then Piastri's.  For the target \<open>norris\<close> this is the order by the
  target's position first.  For another target the list need not be ascending in the
  target's position: with the sample roster and the target \<open>verstappen\<close>, the scenario
  (8, 2, 3) comes before (9, 1, 2).
\<close>

theorem findWinningScenarios_sweep_order:
  assumes "findWinningScenarios lc BASE_DRIVERS targetId = Inr scs"
  shows "sorted_wrt sweepBefore scs
       \<and> (targetId = ''norris'' \<longrightarrow> targetFirstOrdered targetId scs)"
proof -
  obtain n v p where "scs = loopN lc n v p targetId"
    using assms(1) by (auto simp: findWinningScenarios_def split: list.splits)
  then have s: "sorted_wrt sweepBefore scs" by (simp add: sorted_loopN)
  have "targetFirstBefore ''norris'' = sweepBefore"
    by (intro ext) (rule targetFirst_norris)
  then show ?thesis using s by (simp add: targetFirstOrdered_def)
qed

theorem findWinningScenarios_sweep_order_witness:
  "findWinningScenarios ordinalCompare demoRoster ''norris''
        = Inr (loopN ordinalCompare norrisEntry verstappenEntry piastriEntry ''norris'')
   \<and> sorted_wrt sweepBefore (loopN ordinalCompare norrisEntry verstappenEntry piastriEntry ''norris'')
   \<and> targetFirstOrdered ''norris''
        (loopN ordinalCompare norrisEntry verstappenEntry piastriEntry ''norris'')"
proof -
  have f: "findWinningScenarios ordinalCompare demoRoster ''norris''
        = Inr (loopN ordinalCompare norrisEntry verstappenEntry piastriEntry ''norris'')"
    by (rule findWinningScenarios_demoRoster)
  show ?thesis
    using findWinningScenarios_sweep_order[OF f] f by simp
qed

theorem target_first_order_counterexample:
  "(case findWinningScenarios ordinalCompare demoRoster ''verstappen'' of
      Inl e \<Rightarrow> False
    | Inr scs \<Rightarrow> \<not> targetFirstOrdered ''verstappen'' scs)"
proof -
  let ?L = "loopN ordinalCompare norrisEntry verstappenEntry piastriEntry ''verstappen''"
  let ?A = "\<lparr> norrisPos = 8, verstappenPos = 2, piastriPos = 3 \<rparr>"
  let ?B = "\<lparr> norrisPos = 9, verstappenPos = 1, piastriPos = 2 \<rparr>"
  have a: "?A \<in> set ?L" by (simp add: set_loopN collides_def verstappen_wins_8_2_3)
  have b: "?B \<in> set ?L" by (simp add: set_loopN collides_def verstappen_wins_9_1_2)
  have s: "sorted_wrt sweepBefore ?L" by (rule sorted_loopN)
  have "\<not> targetFirstOrdered ''verstappen'' ?L"
  proof
    assume "targetFirstOrdered ''verstappen'' ?L"
    then have q: "sorted_wrt (targetFirstBefore ''verstappen'') ?L"
      by (simp add: targetFirstOrdered_def)
    have "targetFirstBefore ''verstappen'' ?A ?B"
      by (rule sorted_wrt_both[OF s q a b]) (simp_all add: sweepBefore_def)
    then show False
      by (simp add: targetFirstBefore_def otherIds_def rivalPos_def)
  qed
  then show ?thesis by (simp add: findWinningScenarios_demoRoster)
qed

text \<open>
  Claim C8.  For a target among the three contenders, the description of each group
  is made of one sentence per rival, "<Rival> finishes <label> or lower", where the
  label is that of the smallest position the rival has in the group's scenarios
  (\<open>P<n>\<close> up to 10, \<open>No Points\<close> above), and the sentences are joined by
  \<open>" AND <br>"\<close>.  For the target \<open>norris\<close> and the rival positions (4, 5), (5, 5),
  (4, 6) the description is
  "Verstappen finishes P4 or lower AND <br>Piastri finishes P5 or lower"; it is not the
  same text with the separator \<open>" AND "\<close>.
\<close>

theorem groupScenarios_descriptions:
  assumes "targetId \<in> set trackedIds"
  shows "map description (groupScenarios targetId scenarios)
           = map (\<lambda>k. join '' AND <br>''
                    (map (\<lambda>rival. rivalConstraint rival
                                     (filter (\<lambda>sc. rivalPos targetId sc = k) scenarios))
                         (otherIds targetId)))
                 (sort (remdups (map (rivalPos targetId) scenarios)))"
proof -
  have "summarizeConstraints (filter (\<lambda>sc. rivalPos targetId sc = k) scenarios) (otherIds targetId)
          = join '' AND <br>''
              (map (\<lambda>rival. rivalConstraint rival
                                (filter (\<lambda>sc. rivalPos targetId sc = k) scenarios))
                   (otherIds targetId))"
    if "k \<in> set (sort (remdups (map (rivalPos targetId) scenarios)))" for k
  proof (rule summarize_tracked)
    have "k \<in> rivalPos targetId ` set scenarios" using that by simp
    then obtain sc where "sc \<in> set scenarios" "rivalPos targetId sc = k" by (auto simp: image_iff)
    then show "filter (\<lambda>sc. rivalPos targetId sc = k) scenarios \<noteq> []"
      by (auto simp: filter_empty_conv)
  qed
  then show ?thesis
    unfolding groupScenarios_tracked[OF assms] map_map
    by (intro map_cong refl) simp
qed

theorem groupScenarios_descriptions_witness:
  "''norris'' \<in> set trackedIds
   \<and> map description (groupScenarios ''norris'' exampleBucket)
       = [''Verstappen finishes P4 or lower AND <br>Piastri finishes P5 or lower'']"
proof -
  have t: "''norris'' \<in> set trackedIds" by (simp add: trackedIds_def)
  have o: "otherIds ''norris'' = [''verstappen'', ''piastri'']" by (simp add: otherIds_def)
  have f: "filter (\<lambda>sc. rivalPos ''norris'' sc = 1) exampleBucket = exampleBucket"
    by (simp add: exampleBucket_def rivalPos_def)
  have v: "rivalConstraint ''verstappen'' exampleBucket = ''Verstappen finishes P4 or lower''"
    by (simp add: rivalConstraint_def capitalize_verstappen exampleBucket_def rivalPos_def
        positionLabel_def numberToString_def natToString_4)
  have p: "rivalConstraint ''piastri'' exampleBucket = ''Piastri finishes P5 or lower''"
    by (simp add: rivalConstraint_def capitalize_piastri exampleBucket_def rivalPos_def
        positionLabel_def numberToString_def natToString_5)
  have s: "sort (remdups (map (rivalPos ''norris'') exampleBucket)) = [1]"
    by (simp add: exampleBucket_def rivalPos_def)
  show ?thesis
    using groupScenarios_descriptions[OF t, of exampleBucket] t
    by (simp add: s f o v p)
qed

theorem example_description_counterexample:
  "map description (groupScenarios ''norris'' exampleBucket)
     \<noteq> [''Verstappen finishes P4 or lower AND Piastri finishes P5 or lower'']"
  by (simp add: exampleBucket_description)

text \<open>
  Claim C9.  For a target among the three contenders \<open>groupScenarios\<close> returns one group
  for each distinct position the target has in the scenarios, in ascending order of
  that position, so that 11 comes last, after 10.  The group of a position from 1 to 10
  is labelled \<open>P<n>\<close> and the group of position 11 \<open>No Points\<close>.  For any other target
  id the scenarios have no position to read: with the target \<open>russell\<close> all scenarios
  fall into one group labelled \<open>Pundefined\<close>.
\<close>

theorem groupScenarios_groups:
  assumes "targetId \<in> set trackedIds"
  shows "map position (groupScenarios targetId scenarios)
           = map positionLabel (sort (remdups (map (rivalPos targetId) scenarios)))
       \<and> length (groupScenarios targetId scenarios) = card (rivalPos targetId ` set scenarios)
       \<and> (\<forall>n. 1 \<le> n \<and> n \<le> 10 \<longrightarrow> positionLabel n = ''P'' @ numberToString n)
       \<and> positionLabel 11 = ''No Points''"
proof -
  have "length (groupScenarios targetId scenarios)
          = length (remdups (map (rivalPos targetId) scenarios))"
    by (simp add: groupScenarios_tracked[OF assms])
  also have "\<dots> = card (set (map (rivalPos targetId) scenarios))"
    by (simp only: length_remdups_card_conv)
  finally have "length (groupScenarios targetId scenarios) = card (rivalPos targetId ` set scenarios)"
    by simp
  then show ?thesis
    by (simp add: groupScenarios_tracked[OF assms] positionLabel_def comp_def)
qed

theorem groupScenarios_groups_witness:
  "''norris'' \<in> set trackedIds
   \<and> map position (groupScenarios ''norris'' exampleScenarios) = [''P2'', ''P10'', ''No Points'']
   \<and> length (groupScenarios ''norris'' exampleScenarios) = 3"
proof -
  have t: "''norris'' \<in> set trackedIds" by (simp add: trackedIds_def)
  have ten: "natToString 10 = ''10''" by code_simp
  have two: "natToString 2 = ''2''" by code_simp
  have "map positionLabel (sort (remdups (map (rivalPos ''norris'') exampleScenarios)))
          = [''P2'', ''P10'', ''No Points'']"
    by (simp add: exampleScenarios_def rivalPos_def positionLabel_def numberToString_def ten two)
  moreover have "card (rivalPos ''norris'' ` set exampleScenarios)
                   = length (remdups (map (rivalPos ''norris'') exampleScenarios))"
    by (simp only: length_remdups_card_conv set_map)
  moreover have "length (remdups (map (rivalPos ''norris'') exampleScenarios)) = 3"
    by (simp add: exampleScenarios_def rivalPos_def)
  ultimately show ?thesis
    using groupScenarios_groups[OF t, of exampleScenarios] t by simp
qed

theorem untracked_target_counterexample:
  "''russell'' \<notin> set trackedIds
   \<and> map position (groupScenarios ''russell'' exampleScenarios) = [''Pundefined'']"
proof -
  have b: "bucketize ''russell'' exampleScenarios = [(None, exampleScenarios)]"
    by (simp add: bucketize_def posOf_russell exampleScenarios_def)
  have k: "array_sort keyCompare (objectKeys [(None, exampleScenarios)]) = [None]"
    by (simp add: objectKeys_def isArrayIndex_def)
  have "map position (groupScenarios ''russell'' exampleScenarios) = [''Pundefined'']"
    unfolding groupScenarios_def Let_def b k
    by (simp add: displayPos_def keyToNumber_def keyToString_def)
  then show ?thesis by (simp add: trackedIds_def)
qed

text \<open>
  Claim C10.  For a finishing position that is an integer not above 0,
  \<open>calculateDriverResult\<close> gives no race points, leaves the points and the wins as they
  were, and adds one podium.
\<close>

theorem calculateDriverResult_below_domain:
  "p \<le> 0 \<Longrightarrow>
     racePoints (calculateDriverResult d (Some p)) = 0
     \<and> finalPoints (calculateDriverResult d (Some p)) = points d
     \<and> finalWins (calculateDriverResult d (Some p)) = wins d
     \<and> finalPodiums (calculateDriverResult d (Some p)) = podiums d + 1"
  by (simp add: calculateDriverResult_def Let_def)

theorem calculateDriverResult_below_domain_witness:
  "(-2 :: int) \<le> 0
   \<and> racePoints (calculateDriverResult piastriEntry (Some (-2))) = 0
   \<and> finalPoints (calculateDriverResult piastriEntry (Some (-2))) = 392
   \<and> finalWins (calculateDriverResult piastriEntry (Some (-2))) = 7
   \<and> finalPodiums (calculateDriverResult piastriEntry (Some (-2))) = 16"
  using calculateDriverResult_below_domain[of "-2" piastriEntry]
  by (simp add: piastriEntry_def)

end
